theory Spec2Isabelle
  imports Main "HOL-Library.Log_Nat" "HOL-Library.Multiset"
begin

section \<open>Containers shared by both graph classes\<close>

text \<open>
  Both classes keep \<^verbatim>\<open>std::unordered_map<T, std::vector<...>> adj\<close>, a
  \<^verbatim>\<open>std::unordered_set<T> _elements\<close> and \<^verbatim>\<open>std::string _type\<close>.
  The adjacency map is a partial map, so that its key set is part of the state.
  \<^verbatim>\<open>adj[x]\<close> (operator[]) yields the stored vector, or a fresh empty vector that it
  also stores under \<open>x\<close>: \<open>adj_at\<close> is the vector that is read, \<open>adj_touch\<close> the map
  that is left behind, \<open>adj_push\<close> is \<^verbatim>\<open>adj[x].push_back(y)\<close>.

  The order in which an unordered container enumerates its elements is unspecified. Every
  function that runs \<^verbatim>\<open>for (T x : _elements)\<close> or \<^verbatim>\<open>for (auto it : adj)\<close> takes that
  enumeration as a list argument (\<open>es\<close> for the elements, \<open>ks\<close> for the keys of
  \<open>adj\<close>); the theorems range over every enumeration.
\<close>

definition adj_at :: "('a \<rightharpoonup> 'b list) \<Rightarrow> 'a \<Rightarrow> 'b list" where
  "adj_at a x = (case a x of None \<Rightarrow> [] | Some ys \<Rightarrow> ys)"

definition adj_touch :: "('a \<rightharpoonup> 'b list) \<Rightarrow> 'a \<Rightarrow> ('a \<rightharpoonup> 'b list)" where
  "adj_touch a x = (case a x of None \<Rightarrow> a(x \<mapsto> []) | Some ys \<Rightarrow> a)"

definition adj_push :: "('a \<rightharpoonup> 'b list) \<Rightarrow> 'a \<Rightarrow> 'b \<Rightarrow> ('a \<rightharpoonup> 'b list)" where
  "adj_push a x y = a(x \<mapsto> adj_at a x @ [y])"

text \<open>
  \<^verbatim>\<open>std::invalid_argument\<close> is the only exception the classes throw. A constructor's
  outcome is \<open>Inl\<close> when an exception leaves it, and \<open>Inr\<close> with the lines written to
  \<^verbatim>\<open>std::cerr\<close> and the constructed object when it returns.
\<close>

datatype exn = invalid_argument string

definition unrecognized_type :: string where
  "unrecognized_type = ''Can't recognize the type of graph''"

section \<open>Class graph (unweighted)\<close>

record 'a graph =
  g_adj :: "'a \<rightharpoonup> 'a list"
  g_elements :: "'a set"
  g_type :: string

text \<open>The state of the members before the constructor body runs.\<close>

definition graph_members :: "'a graph" where
  "graph_members = \<lparr>g_adj = Map.empty, g_elements = {}, g_type = ''''\<rparr>"

definition graph_add_edge :: "'a graph \<Rightarrow> 'a \<Rightarrow> 'a \<Rightarrow> 'a graph" where
  "graph_add_edge g u v =
     (let a = (if g_type g = ''undirected''
               then adj_push (adj_push (g_adj g) u v) v u
               else adj_push (g_adj g) u v)
      in g\<lparr>g_adj := a, g_elements := insert v (insert u (g_elements g))\<rparr>)"

text \<open>The \<^verbatim>\<open>try\<close> block of the constructor, and the constructor with its handler.\<close>

definition graph_try :: "string \<Rightarrow> ('a \<times> 'a list) list \<Rightarrow> exn + 'a graph" where
  "graph_try t a =
     (if t = ''directed'' \<or> t = ''undirected''
      then Inr (fold (\<lambda>(u, ns) g. fold (\<lambda>neigh g. graph_add_edge g u neigh) ns g) a
                  (graph_members\<lparr>g_type := t\<rparr>))
      else Inl (invalid_argument unrecognized_type))"

definition graph_ctor :: "string \<Rightarrow> ('a \<times> 'a list) list \<Rightarrow> exn + (string list \<times> 'a graph)" where
  "graph_ctor t a =
     (case graph_try t a of
        Inr g \<Rightarrow> Inr ([], g)
      | Inl (invalid_argument what) \<Rightarrow> Inr ([what], graph_members))"

text \<open>
  \<^verbatim>\<open>has_edge\<close> reads \<^verbatim>\<open>adj[start]\<close> only behind its test on \<^verbatim>\<open>_elements\<close>; the graph
  it leaves is returned with the answer.
\<close>

definition graph_has_edge :: "'a graph \<Rightarrow> 'a \<Rightarrow> 'a \<Rightarrow> bool \<times> 'a graph" where
  "graph_has_edge g start end =
     (if start \<notin> g_elements g then (False, g)
      else (end \<in> set (adj_at (g_adj g) start), g\<lparr>g_adj := adj_touch (g_adj g) start\<rparr>))"

definition graph_clear :: "'a graph \<Rightarrow> 'a graph" where
  "graph_clear g = g\<lparr>g_elements := {}, g_adj := Map.empty\<rparr>"

definition graph_empty :: "'a graph \<Rightarrow> bool" where
  "graph_empty g = (g_elements g = {})"

subsection \<open>Traversals\<close>

text \<open>
  The functions below are modelled by what they return. They read the adjacency map
  through \<open>adj_at\<close>; the empty entries that operator[] adds on the way read like missing
  keys. \<open>nb\<close> is the neighbour sequence of a vertex: \<open>adj_at (g_adj g)\<close> for a graph,
  the first components of \<open>adj_at (wg_adj g)\<close> for a weighted graph, whose loop bodies are
  the same text with \<^verbatim>\<open>x.first\<close> for \<^verbatim>\<open>x\<close>.

  A \<^verbatim>\<open>std::stack\<close> is a list with its top at the head, a \<^verbatim>\<open>std::queue\<close> a list with
  its front at the head, \<^verbatim>\<open>unordered_map<T, bool> visited\<close> (only ever tested with
  \<^verbatim>\<open>find\<close>) the set of its keys. A \<^verbatim>\<open>while\<close> loop whose termination depends on the
  data is a partial function: \<open>None\<close> is a loop that does not end.
\<close>

definition push_unvisited_stack :: "'a list \<Rightarrow> 'a list \<times> 'a set \<Rightarrow> 'a list \<times> 'a set" where
  "push_unvisited_stack xs sv =
     fold (\<lambda>x (s, visited). if x \<notin> visited then (x # s, insert x visited) else (s, visited)) xs sv"

definition push_unvisited_queue :: "'a list \<Rightarrow> 'a list \<times> 'a set \<Rightarrow> 'a list \<times> 'a set" where
  "push_unvisited_queue xs qv =
     fold (\<lambda>x (q, visited). if x \<notin> visited then (q @ [x], insert x visited) else (q, visited)) xs qv"

partial_function (option) dfs_loop ::
  "('a \<Rightarrow> 'a list) \<Rightarrow> 'a list \<Rightarrow> 'a set \<Rightarrow> 'a list \<Rightarrow> 'a list option" where
  "dfs_loop nb s visited path =
     (case s of
        [] \<Rightarrow> Some path
      | current # s' \<Rightarrow>
          (case push_unvisited_stack (nb current) (s', visited) of
             (s'', visited') \<Rightarrow> dfs_loop nb s'' visited' (path @ [current])))"

definition graph_dfs :: "'a graph \<Rightarrow> 'a \<Rightarrow> 'a list option" where
  "graph_dfs g start =
     (if graph_empty g \<or> start \<notin> g_elements g then Some []
      else dfs_loop (adj_at (g_adj g)) [start] {start} [])"

text \<open>
  One pass of \<^verbatim>\<open>for (int64_t i = 0; i < size; i++)\<close> in \<^verbatim>\<open>bfs\<close>: \<open>n\<close> elements are
  taken from the front while their unvisited neighbours are appended.
\<close>

fun bfs_level :: "('a \<Rightarrow> 'a list) \<Rightarrow> nat \<Rightarrow> 'a list \<Rightarrow> 'a set \<Rightarrow> 'a list
    \<Rightarrow> 'a list \<times> 'a set \<times> 'a list" where
  "bfs_level nb 0 q visited path = (q, visited, path)"
| "bfs_level nb (Suc n) [] visited path = ([], visited, path)"
| "bfs_level nb (Suc n) (current # q') visited path =
     (case push_unvisited_queue (nb current) (q', visited) of
        (q'', visited') \<Rightarrow> bfs_level nb n q'' visited' (path @ [current]))"

partial_function (option) bfs_loop ::
  "('a \<Rightarrow> 'a list) \<Rightarrow> 'a list \<Rightarrow> 'a set \<Rightarrow> 'a list \<Rightarrow> 'a list option" where
  "bfs_loop nb q visited path =
     (if q = [] then Some path
      else (case bfs_level nb (length q) q visited path of
              (q', visited', path') \<Rightarrow> bfs_loop nb q' visited' path'))"

definition graph_bfs :: "'a graph \<Rightarrow> 'a \<Rightarrow> 'a list option" where
  "graph_bfs g start =
     (if graph_empty g \<or> start \<notin> g_elements g then Some []
      else bfs_loop (adj_at (g_adj g)) [start] {start} [])"

subsection \<open>Kahn's algorithm: cycle and topological_sort\<close>

text \<open>
  \<^verbatim>\<open>unordered_map<T, int> indeg\<close> is read and written through operator[] only, which
  starts a missing key at 0, and is never enumerated: it is a total function that is 0
  where nothing was counted. The counters are mathematical integers (the code's
  \<^verbatim>\<open>int\<close> and \<^verbatim>\<open>int64_t\<close> do not overflow below \<open>2^31\<close> edges).
\<close>

definition indeg_count :: "('a \<Rightarrow> 'a list) \<Rightarrow> 'a list \<Rightarrow> ('a \<Rightarrow> int)" where
  "indeg_count nb es =
     fold (\<lambda>x indeg. fold (\<lambda>y indeg. indeg(y := indeg y + 1)) (nb x) indeg) es (\<lambda>_. 0)"

definition cycle_relax :: "'a list \<Rightarrow> 'a list \<times> ('a \<Rightarrow> int) \<Rightarrow> 'a list \<times> ('a \<Rightarrow> int)" where
  "cycle_relax xs qi =
     fold (\<lambda>x (q, indeg).
             (let indeg' = indeg(x := indeg x - 1)
              in if indeg' x = 0 then (q @ [x], indeg') else (q, indeg'))) xs qi"

partial_function (option) cycle_loop ::
  "('a \<Rightarrow> 'a list) \<Rightarrow> 'a list \<Rightarrow> ('a \<Rightarrow> int) \<Rightarrow> nat \<Rightarrow> nat option" where
  "cycle_loop nb q indeg visited =
     (case q of
        [] \<Rightarrow> Some visited
      | current # q' \<Rightarrow>
          (case cycle_relax (nb current) (q', indeg) of
             (q'', indeg') \<Rightarrow> cycle_loop nb q'' indeg' (visited + 1)))"

text \<open>The value of \<^verbatim>\<open>visited\<close> when the loop of \<^verbatim>\<open>cycle\<close> ends: the vertices removed.\<close>

definition cycle_visited :: "('a \<Rightarrow> 'a list) \<Rightarrow> 'a list \<Rightarrow> nat option" where
  "cycle_visited nb es =
     (let indeg = indeg_count nb es
      in cycle_loop nb (filter (\<lambda>x. indeg x = 0) es) indeg 0)"

text \<open>\<^verbatim>\<open>return visited == 0;\<close>\<close>

definition cycle :: "('a \<Rightarrow> 'a list) \<Rightarrow> 'a list \<Rightarrow> bool option" where
  "cycle nb es = map_option (\<lambda>visited. visited = 0) (cycle_visited nb es)"

definition graph_cycle :: "'a graph \<Rightarrow> 'a list \<Rightarrow> bool option" where
  "graph_cycle g es = cycle (adj_at (g_adj g)) es"

definition topological_relax ::
  "'a list \<Rightarrow> 'a list \<times> ('a \<Rightarrow> int) \<times> 'a set \<Rightarrow> 'a list \<times> ('a \<Rightarrow> int) \<times> 'a set" where
  "topological_relax xs qiv =
     fold (\<lambda>x (q, indeg, visited).
             if x \<notin> visited
             then (let indeg' = indeg(x := indeg x - 1)
                   in if indeg' x = 0 then (q @ [x], indeg', insert x visited)
                      else (q, indeg', visited))
             else (q, indeg, visited)) xs qiv"

partial_function (option) topological_loop ::
  "('a \<Rightarrow> 'a list) \<Rightarrow> 'a list \<Rightarrow> ('a \<Rightarrow> int) \<Rightarrow> 'a set \<Rightarrow> 'a list \<Rightarrow> 'a list option" where
  "topological_loop nb q indeg visited top_sort =
     (case q of
        [] \<Rightarrow> Some top_sort
      | current # q' \<Rightarrow>
          (case topological_relax (nb current) (q', indeg, visited) of
             (q'', indeg', visited') \<Rightarrow>
               topological_loop nb q'' indeg' visited' (top_sort @ [current])))"

definition topological_sort :: "('a \<Rightarrow> 'a list) \<Rightarrow> 'a list \<Rightarrow> 'a list option" where
  "topological_sort nb es =
     (let indeg = indeg_count nb es; q = filter (\<lambda>x. indeg x = 0) es
      in topological_loop nb q indeg (set q) [])"

definition graph_topological_sort :: "'a graph \<Rightarrow> 'a list \<Rightarrow> 'a list option" where
  "graph_topological_sort g es = topological_sort (adj_at (g_adj g)) es"

text \<open>\<open>u\<close> stands before \<open>v\<close> in the sequence \<open>xs\<close>.\<close>

fun precedes :: "'a list \<Rightarrow> 'a \<Rightarrow> 'a \<Rightarrow> bool" where
  "precedes [] u v = False"
| "precedes (x # xs) u v = ((x = u \<and> v \<in> set xs) \<or> precedes xs u v)"

subsection \<open>Bridges\<close>

text \<open>
  \<^verbatim>\<open>bridge\<close> hands \<^verbatim>\<open>start\<close> to \<^verbatim>\<open>dfs_bridge\<close> with no test on \<^verbatim>\<open>_elements\<close>, and
  \<^verbatim>\<open>dfs_bridge\<close> reads \<^verbatim>\<open>adj[start]\<close>; the adjacency map is therefore part of the state
  that the recursion threads, next to \<^verbatim>\<open>time\<close>, \<^verbatim>\<open>visited\<close>, \<^verbatim>\<open>in\<close>, \<^verbatim>\<open>out\<close> and
  \<^verbatim>\<open>bridges\<close>. The maps \<^verbatim>\<open>in\<close> and \<^verbatim>\<open>out\<close> are used through operator[] only. The
  recursion is bounded by fuel, the depth of call stack granted; \<open>None\<close> is fuel
  exhausted. The range-for runs over the vector found at \<^verbatim>\<open>adj[start]\<close>, which the nested
  calls leave as it is (they only add keys).
\<close>

record 'a bridge_state =
  b_time :: int
  b_visited :: "'a set"
  b_in :: "'a \<Rightarrow> int"
  b_out :: "'a \<Rightarrow> int"
  b_bridges :: "'a list list"
  b_adj :: "'a \<rightharpoonup> 'a list"

fun dfs_bridge :: "nat \<Rightarrow> 'a \<Rightarrow> 'a \<Rightarrow> 'a bridge_state \<Rightarrow> 'a bridge_state option"
  and dfs_bridge_for ::
    "nat \<Rightarrow> 'a list \<Rightarrow> 'a \<Rightarrow> 'a \<Rightarrow> 'a bridge_state \<Rightarrow> 'a bridge_state option" where
  "dfs_bridge 0 start parent st = None"
| "dfs_bridge (Suc n) start parent st =
     dfs_bridge_for n (adj_at (b_adj st) start) start parent
       (st\<lparr>b_visited := insert start (b_visited st),
           b_in := (b_in st)(start := b_time st),
           b_out := (b_out st)(start := b_time st),
           b_time := b_time st + 1,
           b_adj := adj_touch (b_adj st) start\<rparr>)"
| "dfs_bridge_for n [] start parent st = Some st"
| "dfs_bridge_for n (x # xs) start parent st =
     (if x \<noteq> parent then
        (if x \<notin> b_visited st then
           (case dfs_bridge n x start st of
              None \<Rightarrow> None
            | Some st1 \<Rightarrow>
                (let st2 = (if b_out st1 x > b_in st1 start
                            then st1\<lparr>b_bridges := b_bridges st1 @ [[x, start]]\<rparr> else st1)
                 in dfs_bridge_for n xs start parent
                      (st2\<lparr>b_out := (b_out st2)(start := min (b_out st2 start) (b_out st2 x))\<rparr>)))
         else dfs_bridge_for n xs start parent
                (st\<lparr>b_out := (b_out st)(start := min (b_out st start) (b_out st x))\<rparr>))
      else dfs_bridge_for n xs start parent st)"

text \<open>\<^verbatim>\<open>bridge\<close> needs a vertex type with a \<open>-1\<close>; it is modelled at \<^verbatim>\<open>T = int\<close>.\<close>

definition graph_bridge ::
  "nat \<Rightarrow> int graph \<Rightarrow> int list \<Rightarrow> int \<Rightarrow> (int list list \<times> int graph) option" where
  "graph_bridge fuel g es start =
     (case fold (\<lambda>x (i, out). (i(x := 0), out(x := 0))) es (\<lambda>_. 0, \<lambda>_. 0) of
        (i, out) \<Rightarrow>
          map_option (\<lambda>st. (b_bridges st, g\<lparr>g_adj := b_adj st\<rparr>))
            (dfs_bridge fuel start (- 1)
               \<lparr>b_time = 0, b_visited = {}, b_in = i, b_out = out, b_bridges = [],
                b_adj = g_adj g\<rparr>))"

text \<open>The invariant of the data model: keys and neighbours of \<open>adj\<close> are vertices.\<close>

definition graph_inv :: "'a graph \<Rightarrow> bool" where
  "graph_inv g =
     (dom (g_adj g) \<subseteq> g_elements g \<and> (\<forall>u. set (adj_at (g_adj g) u) \<subseteq> g_elements g))"

section \<open>Doubles that hold integers\<close>

text \<open>
  Edge weights enter as \<^verbatim>\<open>int64_t\<close> and are stored as \<^verbatim>\<open>double\<close>; distances are
  \<^verbatim>\<open>double\<close>. Every double that occurs is an integer or an infinity (sums of
  integer-valued doubles round to integer-valued doubles, and no NaN arises since every
  weight is finite), so a double is modelled by its value: \<open>Fin i\<close>, \<open>PInf\<close> or \<open>NInf\<close>.
  \<open>rne53\<close> rounds an integer to the nearest integer with a 53-bit significand, ties to
  even (the conversion \<^verbatim>\<open>int64_t\<close> to \<^verbatim>\<open>double\<close>, and the rounding of a sum), and is
  the identity below \<open>2^53\<close>; \<open>dround\<close> adds the overflow to infinity at \<open>2^1024\<close>.
\<close>

datatype dbl = NInf | Fin int | PInf

definition rne53 :: "int \<Rightarrow> int" where
  "rne53 x =
     (if \<bar>x\<bar> < 9007199254740992 then x
      else (let e = nat (bitlen \<bar>x\<bar> - 53); q = \<bar>x\<bar> div 2 ^ e; r = \<bar>x\<bar> mod 2 ^ e;
                h = 2 ^ (e - 1);
                q' = (if h < r \<or> (r = h \<and> odd q) then q + 1 else q)
            in sgn x * (q' * 2 ^ e)))"

definition dbl_overflow :: int where
  "dbl_overflow = 2 ^ 1024"

definition dround :: "int \<Rightarrow> dbl" where
  "dround x =
     (let m = rne53 x
      in if dbl_overflow \<le> m then PInf else if m \<le> - dbl_overflow then NInf else Fin m)"

fun dadd :: "dbl \<Rightarrow> int \<Rightarrow> dbl" where
  "dadd NInf w = NInf"
| "dadd PInf w = PInf"
| "dadd (Fin a) w = dround (a + w)"

fun dlt :: "dbl \<Rightarrow> dbl \<Rightarrow> bool" where
  "dlt NInf NInf = False"
| "dlt NInf b = True"
| "dlt (Fin a) (Fin b) = (a < b)"
| "dlt (Fin a) PInf = True"
| "dlt a b = False"

text \<open>\<^verbatim>\<open>std::numeric_limits<int64_t>::max()\<close>, and the double it converts to.\<close>

definition INT64_MAX :: int where
  "INT64_MAX = 9223372036854775807"

definition int64_max_d :: dbl where
  "int64_max_d = dround INT64_MAX"

section \<open>Class weighted_graph\<close>

record 'a weighted_graph =
  wg_adj :: "'a \<rightharpoonup> ('a \<times> int) list"
  wg_type :: string
  wg_elements :: "'a set"

definition weighted_graph_members :: "'a weighted_graph" where
  "weighted_graph_members = \<lparr>wg_adj = Map.empty, wg_type = '''', wg_elements = {}\<rparr>"

text \<open>
  \<^verbatim>\<open>add_edge(u, v, w)\<close> stores the pair \<^verbatim>\<open>(v, w)\<close> with \<open>w\<close> converted to
  \<^verbatim>\<open>double\<close>. With a type that is neither string it adds no edge.
\<close>

definition weighted_graph_add_edge ::
  "'a weighted_graph \<Rightarrow> 'a \<Rightarrow> 'a \<Rightarrow> int \<Rightarrow> 'a weighted_graph" where
  "weighted_graph_add_edge g u v w =
     (let a = (if wg_type g = ''undirected''
               then adj_push (adj_push (wg_adj g) u (v, rne53 w)) v (u, rne53 w)
               else if wg_type g = ''directed''
               then adj_push (wg_adj g) u (v, rne53 w)
               else wg_adj g)
      in g\<lparr>wg_adj := a, wg_elements := insert v (insert u (wg_elements g))\<rparr>)"

definition weighted_graph_try ::
  "string \<Rightarrow> (('a \<times> 'a) \<times> int) list \<Rightarrow> exn + 'a weighted_graph" where
  "weighted_graph_try t a =
     (if t = ''directed'' \<or> t = ''undirected''
      then Inr (fold (\<lambda>((u, v), w) g. weighted_graph_add_edge g u v w) a
                  (weighted_graph_members\<lparr>wg_type := t\<rparr>))
      else Inl (invalid_argument unrecognized_type))"

definition weighted_graph_ctor ::
  "string \<Rightarrow> (('a \<times> 'a) \<times> int) list \<Rightarrow> exn + (string list \<times> 'a weighted_graph)" where
  "weighted_graph_ctor t a =
     (case weighted_graph_try t a of
        Inr g \<Rightarrow> Inr ([], g)
      | Inl (invalid_argument what) \<Rightarrow> Inr ([what], weighted_graph_members))"

definition weighted_graph_empty :: "'a weighted_graph \<Rightarrow> bool" where
  "weighted_graph_empty g = (wg_elements g = {})"

text \<open>The neighbours of a vertex, in the order of its vector: \<^verbatim>\<open>x.first\<close> for each pair.\<close>

definition wg_nb :: "'a weighted_graph \<Rightarrow> 'a \<Rightarrow> 'a list" where
  "wg_nb g x = map fst (adj_at (wg_adj g) x)"

subsection \<open>Traversals and Kahn's algorithm\<close>

text \<open>
  \<^verbatim>\<open>weighted_graph::dfs\<close> takes the stack in rounds of \<^verbatim>\<open>size = s.size()\<close> pops,
  unlike \<^verbatim>\<open>graph::dfs\<close>; \<^verbatim>\<open>bfs\<close>, \<^verbatim>\<open>cycle\<close> and \<^verbatim>\<open>topological_sort\<close> are those of
  \<^verbatim>\<open>graph\<close>.
\<close>

fun wdfs_level :: "('a \<Rightarrow> 'a list) \<Rightarrow> nat \<Rightarrow> 'a list \<Rightarrow> 'a set \<Rightarrow> 'a list
    \<Rightarrow> 'a list \<times> 'a set \<times> 'a list" where
  "wdfs_level nb 0 s visited path = (s, visited, path)"
| "wdfs_level nb (Suc n) [] visited path = ([], visited, path)"
| "wdfs_level nb (Suc n) (current # s') visited path =
     (case push_unvisited_stack (nb current) (s', visited) of
        (s'', visited') \<Rightarrow> wdfs_level nb n s'' visited' (path @ [current]))"

partial_function (option) wdfs_loop ::
  "('a \<Rightarrow> 'a list) \<Rightarrow> 'a list \<Rightarrow> 'a set \<Rightarrow> 'a list \<Rightarrow> 'a list option" where
  "wdfs_loop nb s visited path =
     (if s = [] then Some path
      else (case wdfs_level nb (length s) s visited path of
              (s', visited', path') \<Rightarrow> wdfs_loop nb s' visited' path'))"

definition weighted_graph_dfs :: "'a weighted_graph \<Rightarrow> 'a \<Rightarrow> 'a list option" where
  "weighted_graph_dfs g start =
     (if weighted_graph_empty g \<or> start \<notin> wg_elements g then Some []
      else wdfs_loop (wg_nb g) [start] {start} [])"

definition weighted_graph_bfs :: "'a weighted_graph \<Rightarrow> 'a \<Rightarrow> 'a list option" where
  "weighted_graph_bfs g start =
     (if weighted_graph_empty g \<or> start \<notin> wg_elements g then Some []
      else bfs_loop (wg_nb g) [start] {start} [])"

definition weighted_graph_cycle :: "'a weighted_graph \<Rightarrow> 'a list \<Rightarrow> bool option" where
  "weighted_graph_cycle g es = cycle (wg_nb g) es"

definition weighted_graph_topological_sort ::
  "'a weighted_graph \<Rightarrow> 'a list \<Rightarrow> 'a list option" where
  "weighted_graph_topological_sort g es = topological_sort (wg_nb g) es"

text \<open>
  \<^verbatim>\<open>cycle()\<close> and \<^verbatim>\<open>topological_sort()\<close> start with
  \<^verbatim>\<open>for (T x : _elements) for (... : adj[x])\<close>, which reads \<^verbatim>\<open>adj[x]\<close> for every
  vertex and so stores an empty vector for each vertex that had no entry. Their queue
  reads \<^verbatim>\<open>adj[current]\<close> for vertices again, so this is the object that either call
  leaves to later calls.
\<close>

definition weighted_graph_after_cycle :: "'a weighted_graph \<Rightarrow> 'a list \<Rightarrow> 'a weighted_graph" where
  "weighted_graph_after_cycle g es = g\<lparr>wg_adj := fold (\<lambda>x a. adj_touch a x) es (wg_adj g)\<rparr>"

subsection \<open>Priority queues\<close>

text \<open>
  A \<^verbatim>\<open>std::priority_queue\<close> with \<^verbatim>\<open>std::greater\<close> is the bag of its entries, kept as
  a list: \<^verbatim>\<open>top()\<close> is the least entry in the order of \<^verbatim>\<open>std::pair\<close> (first
  components, then second components), \<^verbatim>\<open>pop()\<close> removes one copy of it.
\<close>

definition pair_lt :: "('a \<Rightarrow> 'a \<Rightarrow> bool) \<Rightarrow> ('b \<Rightarrow> 'b \<Rightarrow> bool) \<Rightarrow> 'a \<times> 'b \<Rightarrow> 'a \<times> 'b \<Rightarrow> bool" where
  "pair_lt l1 l2 p q = (l1 (fst p) (fst q) \<or> (\<not> l1 (fst q) (fst p) \<and> l2 (snd p) (snd q)))"

definition pq_top :: "('e \<Rightarrow> 'e \<Rightarrow> bool) \<Rightarrow> 'e \<Rightarrow> 'e list \<Rightarrow> 'e" where
  "pq_top lt x xs = fold (\<lambda>y m. if lt y m then y else m) xs x"

subsection \<open>shortest_path\<close>

text \<open>
  \<^verbatim>\<open>unordered_map<T, double> dist\<close> is local and used through operator[] only: a total
  function that is 0.0 where nothing was stored. After \<^verbatim>\<open>std::reverse\<close> the vector
  \<^verbatim>\<open>top_sort\<close> is used from its back; it is kept as a list whose head is the back of the
  vector, so that the reversed vector of \<open>ts\<close> is the list \<open>rev (rev ts)\<close>,
  \<^verbatim>\<open>push_back\<close> is \<open>#\<close> and \<^verbatim>\<open>pop_back\<close> takes the head.
\<close>

definition dist_init :: "'a list \<Rightarrow> 'a \<Rightarrow> ('a \<Rightarrow> dbl)" where
  "dist_init es start = (fold (\<lambda>x d. d(x := int64_max_d)) es (\<lambda>_. Fin 0))(start := Fin 0)"

definition dag_relax ::
  "'a \<Rightarrow> ('a \<times> int) list \<Rightarrow> ('a \<Rightarrow> dbl) \<times> 'a list \<Rightarrow> ('a \<Rightarrow> dbl) \<times> 'a list" where
  "dag_relax current xs dt =
     fold (\<lambda>(x, w) (dst, top_sort).
             if dlt (dadd (dst current) w) (dst x)
             then (dst(x := dadd (dst current) w), x # top_sort)
             else (dst, top_sort)) xs dt"

partial_function (option) dag_loop ::
  "'a weighted_graph \<Rightarrow> 'a list \<Rightarrow> ('a \<Rightarrow> dbl) \<Rightarrow> ('a \<Rightarrow> dbl) option" where
  "dag_loop g top_sort dst =
     (case top_sort of
        [] \<Rightarrow> Some dst
      | current # top_sort' \<Rightarrow>
          (if dst current \<noteq> int64_max_d
           then (case dag_relax current (adj_at (wg_adj g) current) (dst, top_sort') of
                   (dst', top_sort'') \<Rightarrow> dag_loop g top_sort'' dst')
           else dag_loop g top_sort' dst))"

definition dijkstra_relax ::
  "dbl \<Rightarrow> ('a \<times> int) list \<Rightarrow> ('a \<Rightarrow> dbl) \<times> (dbl \<times> 'a) list
     \<Rightarrow> ('a \<Rightarrow> dbl) \<times> (dbl \<times> 'a) list" where
  "dijkstra_relax currentDist xs dp =
     fold (\<lambda>(x, w) (dst, pq).
             if dlt (dadd currentDist w) (dst x)
             then (dst(x := dadd currentDist w), pq @ [(dadd currentDist w, x)])
             else (dst, pq)) xs dp"

partial_function (option) dijkstra_loop ::
  "'a::linorder weighted_graph \<Rightarrow> (dbl \<times> 'a) list \<Rightarrow> ('a \<Rightarrow> dbl) \<Rightarrow> ('a \<Rightarrow> dbl) option" where
  "dijkstra_loop g pq dst =
     (case pq of
        [] \<Rightarrow> Some dst
      | p # ps \<Rightarrow>
          (let top = pq_top (pair_lt dlt (<)) p ps;
               currentNode = snd top; currentDist = fst top
           in (case dijkstra_relax currentDist (adj_at (wg_adj g) currentNode)
                      (dst, remove1 top pq) of
                 (dst', pq') \<Rightarrow> dijkstra_loop g pq' dst')))"

definition shortest_path_dag :: "'a weighted_graph \<Rightarrow> 'a list \<Rightarrow> 'a \<Rightarrow> 'a \<Rightarrow> dbl option" where
  "shortest_path_dag g es start end =
     (case weighted_graph_topological_sort g es of
        None \<Rightarrow> None
      | Some top_sort \<Rightarrow>
          (case dag_loop g (rev (rev top_sort)) (dist_init es start) of
             None \<Rightarrow> None
           | Some dst \<Rightarrow> Some (if dst end \<noteq> int64_max_d then dst end else Fin (- 1))))"

definition shortest_path_dijkstra ::
  "'a::linorder weighted_graph \<Rightarrow> 'a list \<Rightarrow> 'a \<Rightarrow> 'a \<Rightarrow> dbl option" where
  "shortest_path_dijkstra g es start end =
     (case dijkstra_loop g [(Fin 0, start)] (dist_init es start) of
        None \<Rightarrow> None
      | Some dst \<Rightarrow> Some (if dst end \<noteq> int64_max_d then dst end else Fin (- 1)))"

definition shortest_path ::
  "'a::linorder weighted_graph \<Rightarrow> 'a list \<Rightarrow> 'a \<Rightarrow> 'a \<Rightarrow> dbl option" where
  "shortest_path g es start end =
     (if start \<notin> wg_elements g then Some (Fin (- 1))
      else if end \<notin> wg_elements g then Some (Fin (- 1))
      else (case weighted_graph_cycle g es of
              None \<Rightarrow> None
            | Some c \<Rightarrow>
                if \<not> c \<and> wg_type g = ''directed''
                then shortest_path_dag g es start end
                else shortest_path_dijkstra g es start end))"










subsection \<open>prim\<close>

text \<open>
  \<^verbatim>\<open>prim\<close> is modelled at \<^verbatim>\<open>T = int\<close>: its entries are \<^verbatim>\<open>std::pair<T, int64_t>\<close>,
  and its first entry is \<^verbatim>\<open>std::make_pair(0, _temp)\<close>, the pair of the vertex 0 and the
  number \<^verbatim>\<open>_temp\<close>. \<^verbatim>\<open>q.push(x)\<close> converts the \<^verbatim>\<open>double\<close> weight of an edge back to
  \<^verbatim>\<open>int64_t\<close>, which leaves an integer as it is; \<^verbatim>\<open>cost\<close> is a mathematical integer.
\<close>

definition prim_push ::
  "(int \<times> int) list \<Rightarrow> int set \<Rightarrow> (int \<times> int) list \<Rightarrow> (int \<times> int) list" where
  "prim_push xs visited q = fold (\<lambda>x q. if fst x \<notin> visited then q @ [x] else q) xs q"

partial_function (option) prim_loop ::
  "int weighted_graph \<Rightarrow> (int \<times> int) list \<Rightarrow> int set \<Rightarrow> int \<Rightarrow> int option" where
  "prim_loop g q visited cost =
     (case q of
        [] \<Rightarrow> Some cost
      | p # ps \<Rightarrow>
          (let current = pq_top (pair_lt (<) (<)) p ps; q' = remove1 current q;
               temp = fst current
           in if temp \<in> visited then prim_loop g q' visited cost
              else prim_loop g
                     (prim_push (adj_at (wg_adj g) (fst current)) (insert temp visited) q')
                     (insert temp visited) (cost + snd current)))"

definition prim :: "int weighted_graph \<Rightarrow> int \<Rightarrow> int option" where
  "prim g temp = prim_loop g [(0, temp)] {} 0"

subsection \<open>bellman_ford\<close>

text \<open>
  The map \<^verbatim>\<open>dist\<close> is returned, so its key set is kept: \<open>dist_at\<close> is the value that
  \<^verbatim>\<open>dist[x]\<close> reads, \<open>dist_touch\<close> the map that the read leaves behind. \<open>ks\<close> is the
  enumeration of the keys of \<^verbatim>\<open>adj\<close>, the same in every pass since \<^verbatim>\<open>adj\<close> gains no
  key meanwhile; \<^verbatim>\<open>v = adj.size()\<close> is its length.
\<close>

definition dist_at :: "('a \<rightharpoonup> dbl) \<Rightarrow> 'a \<Rightarrow> dbl" where
  "dist_at d x = (case d x of None \<Rightarrow> Fin 0 | Some v \<Rightarrow> v)"

definition dist_touch :: "('a \<rightharpoonup> dbl) \<Rightarrow> 'a \<Rightarrow> ('a \<rightharpoonup> dbl)" where
  "dist_touch d x = (case d x of None \<Rightarrow> d(x \<mapsto> Fin 0) | Some v \<Rightarrow> d)"

definition bf_relax :: "'a \<Rightarrow> ('a \<times> int) list \<Rightarrow> ('a \<rightharpoonup> dbl) \<Rightarrow> ('a \<rightharpoonup> dbl)" where
  "bf_relax j xs dst =
     fold (\<lambda>(x, w) dst.
             (let d = dist_touch (dist_touch dst j) x
              in if dlt (dadd (dist_at d j) w) (dist_at d x)
                 then d(x \<mapsto> dadd (dist_at d j) w) else d)) xs dst"

definition bf_mark :: "'a \<Rightarrow> ('a \<times> int) list \<Rightarrow> ('a \<rightharpoonup> dbl) \<Rightarrow> ('a \<rightharpoonup> dbl)" where
  "bf_mark j xs dst =
     fold (\<lambda>(x, w) dst.
             (let d = dist_touch (dist_touch dst j) x
              in if dlt (dadd (dist_at d j) w) (dist_at d x)
                 then d(x \<mapsto> NInf) else d)) xs dst"

definition bf_init :: "'a list \<Rightarrow> 'a \<Rightarrow> ('a \<rightharpoonup> dbl)" where
  "bf_init ks start = (fold (\<lambda>k dst. dst(k \<mapsto> PInf)) ks Map.empty)(start \<mapsto> Fin 0)"

definition bellman_ford :: "'a weighted_graph \<Rightarrow> 'a list \<Rightarrow> 'a \<Rightarrow> ('a \<rightharpoonup> dbl)" where
  "bellman_ford g ks start =
     (let v = int (length ks);
          dist1 = ((\<lambda>dst. fold (\<lambda>j dst. bf_relax j (adj_at (wg_adj g) j) dst) ks dst)
                     ^^ nat (v - 1)) (bf_init ks start)
      in ((\<lambda>dst. fold (\<lambda>j dst. bf_mark j (adj_at (wg_adj g) j) dst) ks dst)
            ^^ nat (v - 1)) dist1)"

section \<open>Objects and the graphs of the scenarios\<close>

text \<open>The object that a constructor call leaves to its caller.\<close>

definition graph_object :: "string \<Rightarrow> ('a \<times> 'a list) list \<Rightarrow> 'a graph" where
  "graph_object t a =
     (case graph_ctor t a of Inr (cerr, g) \<Rightarrow> g | Inl e \<Rightarrow> graph_members)"

definition weighted_graph_object :: "string \<Rightarrow> (('a \<times> 'a) \<times> int) list \<Rightarrow> 'a weighted_graph" where
  "weighted_graph_object t a =
     (case weighted_graph_ctor t a of Inr (cerr, g) \<Rightarrow> g | Inl e \<Rightarrow> weighted_graph_members)"

text \<open>A directed graph with the edge 1 \<rightarrow> 2 leading into the cycle 2 \<rightarrow> 3 \<rightarrow> 2.\<close>

definition tail_cycle :: "int graph" where
  "tail_cycle = graph_object ''directed'' [(1, [2]), (2, [3]), (3, [2])]"

definition weighted_tail_cycle :: "int weighted_graph" where
  "weighted_tail_cycle =
     weighted_graph_object ''directed'' [((1, 2), 1), ((2, 3), 1), ((3, 2), 1)]"

text \<open>The undirected triangle A-B:1, B-C:2, A-C:3 on the vertices \<open>a\<close>, \<open>b\<close>, \<open>c\<close>.\<close>

definition triangle :: "int \<Rightarrow> int \<Rightarrow> int \<Rightarrow> int weighted_graph" where
  "triangle a b c =
     weighted_graph_object ''undirected'' [((a, b), 1), ((b, c), 2), ((a, c), 3)]"

text \<open>The directed acyclic graph 1 \<rightarrow> 2 : 1, 1 \<rightarrow> 3 : 4, 2 \<rightarrow> 4 : 2, 3 \<rightarrow> 4 : 1.\<close>

definition diamond :: "int weighted_graph" where
  "diamond =
     weighted_graph_object ''directed'' [((1, 2), 1), ((1, 3), 4), ((2, 4), 2), ((3, 4), 1)]"

text \<open>The undirected graph with the single edge A-B of weight -5.\<close>

definition neg_edge :: "'a \<Rightarrow> 'a \<Rightarrow> 'a weighted_graph" where
  "neg_edge a b = weighted_graph_object ''undirected'' [((a, b), - 5)]"


text \<open>
  An undirected graph of two components without a negative weight, 1-2 with weight 5 and
  3-4 with weight 1.
\<close>

definition two_harbours :: "int weighted_graph" where
  "two_harbours = weighted_graph_object ''undirected'' [((1, 2), 5), ((3, 4), 1)]"




text \<open>The directed graph A \<rightarrow> B : 5, B \<rightarrow> C : 5.\<close>

definition chain :: "'a \<Rightarrow> 'a \<Rightarrow> 'a \<Rightarrow> 'a weighted_graph" where
  "chain a b c = weighted_graph_object ''directed'' [((a, b), 5), ((b, c), 5)]"

text \<open>The directed graph 1 \<rightarrow> 3 : -5, 2 \<rightarrow> 1 : 1, in which 3 has no outgoing edge.\<close>

definition neg_sink :: "int weighted_graph" where
  "neg_sink = weighted_graph_object ''directed'' [((1, 3), - 5), ((2, 1), 1)]"

section \<open>Measures for the shortest-path relaxation\<close>








text \<open>
  A vertex whose entry in the returned mapping is missing or not above 0, the value that
  a first read of \<^verbatim>\<open>dist[x]\<close> stores.
\<close>

definition at_most_zero :: "('a \<rightharpoonup> dbl) \<Rightarrow> 'a \<Rightarrow> bool" where
  "at_most_zero d c = (case d c of None \<Rightarrow> True | Some v \<Rightarrow> \<not> dlt (Fin 0) v)"

section \<open>Bookkeeping for Kahn's algorithm\<close>

text \<open>
  The number of edges into \<open>v\<close> from the vertices of the enumeration that are not in
  \<open>D\<close>: the in-degree that is still pending once the vertices of \<open>D\<close> are removed.
\<close>

definition pending :: "('a \<Rightarrow> 'a list) \<Rightarrow> 'a list \<Rightarrow> 'a set \<Rightarrow> 'a \<Rightarrow> int" where
  "pending nb es D v = (\<Sum>u\<leftarrow>es. if u \<in> D then 0 else int (count_list (nb u) v))"

section \<open>Unfolding one iteration\<close>

lemma cycle_loop_Nil: "cycle_loop nb [] indeg v = Some v"
  by (subst cycle_loop.simps) simp

lemma cycle_loop_Cons:
  "cycle_loop nb (c # q) indeg v =
     (case cycle_relax (nb c) (q, indeg) of
        (q', indeg') \<Rightarrow> cycle_loop nb q' indeg' (v + 1))"
  by (subst cycle_loop.simps) simp

lemma topological_loop_Nil: "topological_loop nb [] indeg vis ts = Some ts"
  by (subst topological_loop.simps) simp

lemma topological_loop_Cons:
  "topological_loop nb (c # q) indeg vis ts =
     (case topological_relax (nb c) (q, indeg, vis) of
        (q', indeg', vis') \<Rightarrow> topological_loop nb q' indeg' vis' (ts @ [c]))"
  by (subst topological_loop.simps) simp

lemma prim_loop_Nil: "prim_loop g [] visited cost = Some cost"
  by (subst prim_loop.simps) simp

lemma prim_loop_Cons:
  "prim_loop g (p # ps) visited cost =
     (let current = pq_top (pair_lt (<) (<)) p ps; q' = remove1 current (p # ps);
          temp = fst current
      in if temp \<in> visited then prim_loop g q' visited cost
         else prim_loop g
                (prim_push (adj_at (wg_adj g) (fst current)) (insert temp visited) q')
                (insert temp visited) (cost + snd current))"
  by (subst prim_loop.simps) simp

lemma dag_loop_Nil: "dag_loop g [] dst = Some dst"
  by (subst dag_loop.simps) simp

lemma dag_loop_Cons:
  "dag_loop g (current # ts) dst =
     (if dst current \<noteq> int64_max_d
      then (case dag_relax current (adj_at (wg_adj g) current) (dst, ts) of
              (dst', ts') \<Rightarrow> dag_loop g ts' dst')
      else dag_loop g ts dst)"
  by (subst dag_loop.simps) simp



section \<open>Doubles\<close>

lemma dbl_overflow_big: "9223372036854775808 < dbl_overflow"
  by (simp add: dbl_overflow_def)

lemma rne53_small: "\<bar>x\<bar> < 9007199254740992 \<Longrightarrow> rne53 x = x"
  by (simp add: rne53_def)

lemma dround_small: "\<bar>x\<bar> < 9007199254740992 \<Longrightarrow> dround x = Fin x"
  using dbl_overflow_big by (auto simp: dround_def rne53_def)

lemma int64_max_d_eq: "int64_max_d = Fin 9223372036854775808"
  by (simp add: int64_max_d_def INT64_MAX_def dround_def rne53_def Let_def compute_bitlen
      dbl_overflow_def)

section \<open>Counting in-degrees over an enumeration\<close>

lemma indeg_inner:
  "fold (\<lambda>y indeg. indeg(y := indeg y + 1)) ys i = (\<lambda>z. i z + int (count_list ys z))"
  by (induction ys arbitrary: i) (auto simp: fun_eq_iff)

lemma indeg_outer:
  "fold (\<lambda>x indeg. fold (\<lambda>y indeg. indeg(y := indeg y + 1)) (nb x) indeg) es i =
     (\<lambda>z. i z + (\<Sum>x\<leftarrow>es. int (count_list (nb x) z)))"
  by (induction es arbitrary: i) (auto simp: fun_eq_iff indeg_inner)

lemma indeg_count_eq: "indeg_count nb es = (\<lambda>z. \<Sum>x\<leftarrow>es. int (count_list (nb x) z))"
  by (simp add: indeg_count_def indeg_outer)

lemma indeg_count_distinct:
  "distinct es \<Longrightarrow> indeg_count nb es = (\<lambda>z. \<Sum>x\<in>set es. int (count_list (nb x) z))"
  by (simp add: indeg_count_eq sum_list_distinct_conv_sum_set)

lemma filter_single:
  assumes "distinct es" and "a \<in> set es" and "P a"
    and "\<And>x. x \<in> set es \<Longrightarrow> x \<noteq> a \<Longrightarrow> \<not> P x"
  shows "filter P es = [a]"
  using assms
proof (induction es)
  case Nil
  then show ?case by simp
next
  case (Cons e es)
  show ?case
  proof (cases "e = a")
    case True
    have "filter P es = []"
      using Cons.prems True by (auto simp: filter_empty_conv)
    then show ?thesis using True Cons.prems by simp
  next
    case False
    then have "filter P es = [a]" using Cons by auto
    moreover have "\<not> P e" using Cons.prems False by auto
    ultimately show ?thesis by simp
  qed
qed

lemma two_enum:
  assumes "distinct ks" and "set ks = {a, b}" and "a \<noteq> b"
  shows "ks = [a, b] \<or> ks = [b, a]"
proof -
  have "length ks = 2" using assms distinct_card[of ks] by simp
  then obtain x y where "ks = [x, y]"
    by (metis (no_types, opaque_lifting) One_nat_def Suc_1 length_0_conv length_Suc_conv)
  with assms show ?thesis by (auto simp: doubleton_eq_iff)
qed

section \<open>Constructed objects\<close>

lemma graph_object_directed:
  "graph_object ''directed'' a =
     fold (\<lambda>(u, ns) g. fold (\<lambda>neigh g. graph_add_edge g u neigh) ns g) a
       (graph_members\<lparr>g_type := ''directed''\<rparr>)"
  by (simp add: graph_object_def graph_ctor_def graph_try_def)

lemma graph_object_undirected:
  "graph_object ''undirected'' a =
     fold (\<lambda>(u, ns) g. fold (\<lambda>neigh g. graph_add_edge g u neigh) ns g) a
       (graph_members\<lparr>g_type := ''undirected''\<rparr>)"
  by (simp add: graph_object_def graph_ctor_def graph_try_def)

lemma weighted_graph_object_directed:
  "weighted_graph_object ''directed'' a =
     fold (\<lambda>((u, v), w) g. weighted_graph_add_edge g u v w) a
       (weighted_graph_members\<lparr>wg_type := ''directed''\<rparr>)"
  by (simp add: weighted_graph_object_def weighted_graph_ctor_def weighted_graph_try_def)

lemma weighted_graph_object_undirected:
  "weighted_graph_object ''undirected'' a =
     fold (\<lambda>((u, v), w) g. weighted_graph_add_edge g u v w) a
       (weighted_graph_members\<lparr>wg_type := ''undirected''\<rparr>)"
  by (simp add: weighted_graph_object_def weighted_graph_ctor_def weighted_graph_try_def)

lemmas build_simps =
  graph_object_directed graph_object_undirected weighted_graph_object_directed
  weighted_graph_object_undirected graph_add_edge_def weighted_graph_add_edge_def
  graph_members_def weighted_graph_members_def adj_push_def adj_at_def rne53_small

section \<open>Kahn's algorithm on the graph with a cycle behind a tail\<close>

lemma tail_cycle_kahn:
  fixes nb :: "int \<Rightarrow> int list"
  assumes nb: "nb 1 = [2]" "nb 2 = [3]" "nb 3 = [2]"
    and es: "distinct es" "set es = {1, 2, 3}"
  shows "cycle_visited nb es = Some 1" and "topological_sort nb es = Some [1]"
proof -
  have ind: "indeg_count nb es = (\<lambda>z. if z = 2 then 2 else if z = 3 then 1 else 0)"
    using es(1) by (auto simp: indeg_count_distinct es(2) nb fun_eq_iff)
  have q: "filter (\<lambda>x. indeg_count nb es x = 0) es = [1]"
    by (rule filter_single) (use es in \<open>auto simp: ind\<close>)
  have "cycle_visited nb es = cycle_loop nb [1] (indeg_count nb es) 0"
    using q by (simp add: cycle_visited_def Let_def)
  also have "\<dots> = Some 1"
    by (simp add: ind cycle_loop_Cons cycle_loop_Nil cycle_relax_def nb Let_def)
  finally show "cycle_visited nb es = Some 1" .
  have "topological_sort nb es = topological_loop nb [1] (indeg_count nb es) {1} []"
    by (simp only: topological_sort_def Let_def q) simp
  also have "\<dots> = Some [1]"
    by (simp add: ind topological_loop_Cons topological_loop_Nil topological_relax_def nb Let_def)
  finally show "topological_sort nb es = Some [1]" .
qed

lemma tail_cycle_nb:
  "adj_at (g_adj tail_cycle) 1 = [2]" "adj_at (g_adj tail_cycle) 2 = [3]"
  "adj_at (g_adj tail_cycle) 3 = [2]"
  by (simp_all add: tail_cycle_def build_simps)

lemma tail_cycle_elements: "g_elements tail_cycle = {1, 2, 3}"
  by (auto simp: tail_cycle_def build_simps)

lemma weighted_tail_cycle_nb:
  "wg_nb weighted_tail_cycle 1 = [2]" "wg_nb weighted_tail_cycle 2 = [3]"
  "wg_nb weighted_tail_cycle 3 = [2]"
  by (simp_all add: weighted_tail_cycle_def wg_nb_def build_simps)

lemma weighted_tail_cycle_elements: "wg_elements weighted_tail_cycle = {1, 2, 3}"
  by (auto simp: weighted_tail_cycle_def build_simps)

text \<open>
  Claim C1. \<^verbatim>\<open>cycle()\<close> is to return true if and only if Kahn's algorithm removes fewer
  than all vertices. The code returns \<^verbatim>\<open>visited == 0\<close>. On the directed graph
  1 \<rightarrow> 2, 2 \<rightarrow> 3, 3 \<rightarrow> 2, unweighted or weighted, under every enumeration of the three
  vertices, the loop removes one vertex (1) of three, and \<^verbatim>\<open>cycle()\<close> returns false.
\<close>

theorem cycle_false_with_one_of_three_removed:
  assumes "distinct es" and "set es = {1, 2, 3}"
  shows "g_elements tail_cycle = set es \<and> 3 \<in> set (adj_at (g_adj tail_cycle) 2)
       \<and> 2 \<in> set (adj_at (g_adj tail_cycle) 3)
       \<and> cycle_visited (adj_at (g_adj tail_cycle)) es = Some 1
       \<and> graph_cycle tail_cycle es = Some False
       \<and> wg_elements weighted_tail_cycle = set es
       \<and> cycle_visited (wg_nb weighted_tail_cycle) es = Some 1
       \<and> weighted_graph_cycle weighted_tail_cycle es = Some False"
  using tail_cycle_kahn(1)[OF tail_cycle_nb assms]
    tail_cycle_kahn(1)[OF weighted_tail_cycle_nb assms] assms(2)
  by (simp add: graph_cycle_def weighted_graph_cycle_def cycle_def tail_cycle_elements
      weighted_tail_cycle_elements tail_cycle_nb)

theorem cycle_false_with_one_of_three_removed_witness:
  "distinct [1, 2, 3 :: int] \<and> set [1, 2, 3 :: int] = {1, 2, 3}
   \<and> cycle_visited (adj_at (g_adj tail_cycle)) [1, 2, 3] = Some 1
   \<and> graph_cycle tail_cycle [1, 2, 3] = Some False
   \<and> weighted_graph_cycle weighted_tail_cycle [1, 2, 3] = Some False"
  using cycle_false_with_one_of_three_removed[of "[1, 2, 3]"] by simp

text \<open>
  Claim C2. On a graph where \<^verbatim>\<open>cycle()\<close> is false, \<^verbatim>\<open>topological_sort()\<close> is to place
  \<open>u\<close> before \<open>v\<close> for every inserted edge \<open>(u, v)\<close>. On the same graph
  1 \<rightarrow> 2, 2 \<rightarrow> 3, 3 \<rightarrow> 2, \<^verbatim>\<open>cycle()\<close> is false and \<^verbatim>\<open>topological_sort()\<close> returns the
  sequence of the vertex 1 alone: the inserted edge (2, 3) has neither end in it.
\<close>

theorem topological_sort_drops_edge_after_cycle_false:
  assumes "distinct es" and "set es = {1, 2, 3}"
  shows "graph_cycle tail_cycle es = Some False
       \<and> graph_topological_sort tail_cycle es = Some [1]
       \<and> 3 \<in> set (adj_at (g_adj tail_cycle) 2)
       \<and> \<not> precedes [1] 2 3"
  using tail_cycle_kahn[OF tail_cycle_nb assms]
  by (simp add: graph_cycle_def cycle_def graph_topological_sort_def tail_cycle_nb)

theorem topological_sort_drops_edge_after_cycle_false_witness:
  "distinct [3, 1, 2 :: int] \<and> set [3, 1, 2 :: int] = {1, 2, 3}
   \<and> graph_cycle tail_cycle [3, 1, 2] = Some False
   \<and> graph_topological_sort tail_cycle [3, 1, 2] = Some [1]"
  using topological_sort_drops_edge_after_cycle_false[of "[3, 1, 2]"] by auto

section \<open>prim on the triangle\<close>

lemma triangle_adj0: "0 \<notin> {a, b, c} \<Longrightarrow> adj_at (wg_adj (triangle a b c)) 0 = []"
  by (simp add: triangle_def build_simps)

text \<open>
  Claim C3. On the triangle A-B:1, B-C:2, A-C:3, \<^verbatim>\<open>prim(start)\<close> is to return the
  weight 3 of the minimum spanning tree. The first entry of the queue is
  \<^verbatim>\<open>make_pair(0, _temp)\<close>, read as the vertex 0 with weight \<^verbatim>\<open>_temp\<close>: whenever 0 is
  none of the three vertices, the loop adds \<^verbatim>\<open>_temp\<close> to the cost, finds no edge at
  vertex 0 and returns the number of the start vertex.
\<close>

theorem prim_returns_start_number:
  "0 \<notin> {a, b, c} \<Longrightarrow> prim (triangle a b c) start = Some start"
  by (simp add: prim_def prim_loop_Cons prim_loop_Nil pq_top_def Let_def triangle_adj0
      prim_push_def)

theorem prim_returns_start_number_witness:
  "(0::int) \<notin> {1, 2, 3} \<and> prim (triangle 1 2 3) 1 = Some 1"
  using prim_returns_start_number[of 1 2 3 1] by simp

section \<open>shortest_path on the directed acyclic scenario\<close>

lemma diamond_at:
  "adj_at (wg_adj diamond) 1 = [(2, 1), (3, 4)]" "adj_at (wg_adj diamond) 2 = [(4, 2)]"
  "adj_at (wg_adj diamond) 3 = [(4, 1)]" "adj_at (wg_adj diamond) 4 = []"
  by (simp_all add: diamond_def build_simps)

lemma diamond_nb:
  "wg_nb diamond 1 = [2, 3]" "wg_nb diamond 2 = [4]" "wg_nb diamond 3 = [4]"
  "wg_nb diamond 4 = []"
  by (simp_all add: wg_nb_def diamond_at)

lemma diamond_elements: "wg_elements diamond = {1, 2, 3, 4}"
  by (auto simp: diamond_def build_simps)

lemma diamond_type: "wg_type diamond = ''directed''"
  by (simp add: diamond_def build_simps)

lemma diamond_indeg:
  assumes "distinct es" and "set es = {1, 2, 3, 4}"
  shows "indeg_count (wg_nb diamond) es =
           (\<lambda>z. if z = 2 then 1 else if z = 3 then 1 else if z = 4 then 2 else 0)"
    and "filter (\<lambda>x. indeg_count (wg_nb diamond) es x = 0) es = [1]"
proof -
  show ind: "indeg_count (wg_nb diamond) es =
      (\<lambda>z. if z = 2 then 1 else if z = 3 then 1 else if z = 4 then 2 else 0)"
    using assms(1) by (auto simp: indeg_count_distinct assms(2) diamond_nb fun_eq_iff)
  show "filter (\<lambda>x. indeg_count (wg_nb diamond) es x = 0) es = [1]"
    by (rule filter_single) (use assms in \<open>auto simp: ind\<close>)
qed

lemma dist_init_eq:
  "dist_init es start =
     (\<lambda>v. if v = start then Fin 0 else if v \<in> set es then int64_max_d else Fin 0)"
proof -
  have "fold (\<lambda>x d. d(x := m)) es d0 = (\<lambda>v. if v \<in> set es then m else d0 v)"
    for m :: dbl and d0 :: "'a \<Rightarrow> dbl"
    by (induction es arbitrary: d0) (auto simp: fun_eq_iff)
  then show ?thesis by (auto simp: dist_init_def fun_eq_iff)
qed

lemma diamond_cycle:
  assumes "distinct es" and "set es = {1, 2, 3, 4}"
  shows "weighted_graph_cycle diamond es = Some False"
proof -
  let ?nb = "wg_nb diamond"
  have "cycle_visited ?nb es = cycle_loop ?nb [1] (indeg_count ?nb es) 0"
    using diamond_indeg(2)[OF assms] by (simp add: cycle_visited_def Let_def)
  also have "\<dots> = Some 4"
    by (simp add: diamond_indeg(1)[OF assms] cycle_loop_Cons cycle_loop_Nil cycle_relax_def
        diamond_nb Let_def)
  finally show ?thesis by (simp add: weighted_graph_cycle_def cycle_def)
qed

lemma diamond_topological_sort:
  assumes "distinct es" and "set es = {1, 2, 3, 4}"
  shows "weighted_graph_topological_sort diamond es = Some [1, 2, 3, 4]"
proof -
  let ?nb = "wg_nb diamond"
  have "topological_sort ?nb es = topological_loop ?nb [1] (indeg_count ?nb es) {1} []"
    by (simp only: topological_sort_def Let_def diamond_indeg(2)[OF assms]) simp
  also have "\<dots> = Some [1, 2, 3, 4]"
    by (simp add: diamond_indeg(1)[OF assms] topological_loop_Cons topological_loop_Nil
        topological_relax_def diamond_nb Let_def)
  finally show ?thesis by (simp add: weighted_graph_topological_sort_def)
qed

lemma diamond_dag:
  assumes "distinct es" and "set es = {1, 2, 3, 4}"
  shows "shortest_path_dag diamond es 1 4 = Some (Fin 3)"
  by (simp add: shortest_path_dag_def diamond_topological_sort[OF assms] dist_init_eq assms(2)
      int64_max_d_eq dag_loop_Cons dag_loop_Nil dag_relax_def diamond_at dround_small)

text \<open>
  Claim C4. On the directed acyclic graph 1 \<rightarrow> 2 : 1, 1 \<rightarrow> 3 : 4, 2 \<rightarrow> 4 : 2, 3 \<rightarrow> 4 : 1,
  \<^verbatim>\<open>shortest_path(1, 4)\<close> returns 3, through the branch for directed graphs on which
  \<^verbatim>\<open>cycle()\<close> is false, which relaxes from the vertices in the topological order
  1, 2, 3, 4; this under every enumeration of the vertex set.
\<close>

theorem shortest_path_diamond:
  assumes "distinct es" and "set es = {1, 2, 3, 4}"
  shows "wg_elements diamond = set es
       \<and> weighted_graph_cycle diamond es = Some False \<and> wg_type diamond = ''directed''
       \<and> weighted_graph_topological_sort diamond es = Some [1, 2, 3, 4]
       \<and> shortest_path_dag diamond es 1 4 = Some (Fin 3)
       \<and> shortest_path diamond es 1 4 = Some (Fin 3)"
  by (simp add: shortest_path_def diamond_elements diamond_cycle[OF assms] diamond_type
      diamond_dag[OF assms] diamond_topological_sort[OF assms] assms(2))

theorem shortest_path_diamond_witness:
  "distinct [4, 3, 2, 1 :: int] \<and> set [4, 3, 2, 1 :: int] = {1, 2, 3, 4}
   \<and> shortest_path diamond [4, 3, 2, 1] 1 4 = Some (Fin 3)"
  using shortest_path_diamond[of "[4, 3, 2, 1]"] by auto

section \<open>bellman_ford on the negative edge\<close>

lemmas bf_simps =
  bellman_ford_def bf_init_def bf_relax_def bf_mark_def adj_at_def dist_at_def dist_touch_def
  dround_small Let_def

lemma neg_edge_adj: "a \<noteq> b \<Longrightarrow> wg_adj (neg_edge a b) = [a \<mapsto> [(b, - 5)], b \<mapsto> [(a, - 5)]]"
  by (simp add: neg_edge_def build_simps)

text \<open>
  Claim C6. On the undirected graph with the single edge A-B of weight -5,
  \<^verbatim>\<open>bellman_ford(A)\<close> returns a mapping in which the distance of B is negative infinity,
  in either order in which \<^verbatim>\<open>adj\<close> enumerates its two keys.
\<close>

theorem bellman_ford_negative_edge:
  assumes "a \<noteq> b" and "distinct ks" and "set ks = dom (wg_adj (neg_edge a b))"
  shows "bellman_ford (neg_edge a b) ks a b = Some NInf"
proof -
  have "set ks = {a, b}" using assms by (auto simp: neg_edge_adj)
  then have "ks = [a, b] \<or> ks = [b, a]" using assms two_enum by metis
  then show ?thesis
  proof
    assume "ks = [a, b]"
    then show ?thesis using assms(1) by (simp add: bf_simps neg_edge_adj)
  next
    assume "ks = [b, a]"
    then show ?thesis using assms(1) by (simp add: bf_simps neg_edge_adj)
  qed
qed

theorem bellman_ford_negative_edge_witness:
  "(1::int) \<noteq> 2 \<and> distinct [2, 1 :: int] \<and> set [2, 1 :: int] = dom (wg_adj (neg_edge 1 2))
   \<and> bellman_ford (neg_edge (1::int) 2) [2, 1] 1 2 = Some NInf"
proof -
  have k: "set [2, 1 :: int] = dom (wg_adj (neg_edge 1 2))"
    by (auto simp: neg_edge_adj)
  show ?thesis
    using bellman_ford_negative_edge[of "1 :: int" 2 "[2, 1]"] k by simp
qed

section \<open>Construction with an unknown type\<close>

text \<open>
  Claim C7, as stated: for a mode string that is neither "directed" nor "undirected" the
  constructors raise the error to the caller. They do not: the \<^verbatim>\<open>throw\<close> stands inside
  the constructor's own \<^verbatim>\<open>try\<close> block, whose handler writes the message to
  \<^verbatim>\<open>std::cerr\<close> and returns. For the mode "tree" both constructors return an object.
\<close>

theorem ctor_unknown_type_returns_object:
  "graph_ctor ''tree'' ([] :: (int \<times> int list) list) = Inr ([unrecognized_type], graph_members)
   \<and> weighted_graph_ctor ''tree'' ([] :: ((int \<times> int) \<times> int) list)
       = Inr ([unrecognized_type], weighted_graph_members)"
  by (simp add: graph_ctor_def graph_try_def weighted_graph_ctor_def weighted_graph_try_def)

text \<open>
  Claim C7, amended: for every mode string that is neither "directed" nor "undirected",
  construction (unweighted and weighted) returns to the caller without an exception; the
  message is written to the error stream, and the object keeps its members as they were
  before the body ran: the empty mode string (no valid mode is stored as a default), no
  vertex and no edge, whatever initial edges were passed. With the empty mode string a
  later \<^verbatim>\<open>add_edge(u, v)\<close> stores the one entry \<open>v\<close> under \<open>u\<close> in a graph, and no
  entry at all in a weighted graph.
\<close>

theorem ctor_unknown_type_message_and_members:
  assumes "t \<noteq> ''directed''" and "t \<noteq> ''undirected''"
  shows "graph_ctor t a = Inr ([unrecognized_type], graph_members)
       \<and> weighted_graph_ctor t b = Inr ([unrecognized_type], weighted_graph_members)
       \<and> g_type (graph_object t a) = '''' \<and> g_elements (graph_object t a) = {}
       \<and> g_adj (graph_object t a) = Map.empty
       \<and> wg_type (weighted_graph_object t b) = '''' \<and> wg_elements (weighted_graph_object t b) = {}
       \<and> wg_adj (weighted_graph_object t b) = Map.empty
       \<and> g_adj (graph_add_edge (graph_object t a) u v) = [u \<mapsto> [v]]
       \<and> wg_adj (weighted_graph_add_edge (weighted_graph_object t b) u' v' w) = Map.empty"
  using assms
  by (auto simp add: graph_ctor_def graph_try_def weighted_graph_ctor_def weighted_graph_try_def
      graph_object_def weighted_graph_object_def graph_members_def weighted_graph_members_def
      graph_add_edge_def weighted_graph_add_edge_def adj_push_def adj_at_def)

theorem ctor_unknown_type_message_and_members_witness:
  "''Directed'' \<noteq> ''directed'' \<and> ''Directed'' \<noteq> ''undirected''
   \<and> graph_ctor ''Directed'' [(1 :: int, [2, 3])] = Inr ([unrecognized_type], graph_members)
   \<and> weighted_graph_ctor ''Directed'' [((1 :: int, 2), 7)]
       = Inr ([unrecognized_type], weighted_graph_members)"
  using ctor_unknown_type_message_and_members[of "''Directed''" "[(1 :: int, [2, 3])]"
      "[((1 :: int, 2), 7)]"]
  by simp

section \<open>bridge from a start that is no vertex\<close>

text \<open>
  Claim C8. The vertex set is to remain a superset of the keys of the adjacency map under
  every sequence of public operations. \<^verbatim>\<open>bridge(start)\<close> reads \<^verbatim>\<open>adj[start]\<close> with no
  test on \<^verbatim>\<open>_elements\<close> (\<^verbatim>\<open>has_edge\<close>, \<^verbatim>\<open>dfs\<close> and \<^verbatim>\<open>bfs\<close> test first): on the
  undirected graph with the edge 1-2, \<^verbatim>\<open>bridge(7)\<close> returns no bridge and leaves the key
  7 in the adjacency map, while the vertex set stays {1, 2}; with any fuel and under
  every enumeration.
\<close>

theorem bridge_leaves_key_outside_vertices:
  "map_option (\<lambda>(bridges, g). (bridges, dom (g_adj g), g_elements g))
     (graph_bridge (Suc n) (graph_object ''undirected'' [(1, [2])]) es 7)
   = Some ([], {1, 2, 7}, {1, 2})"
  by (auto simp: graph_bridge_def build_simps adj_touch_def split: prod.splits)

text \<open>
  The operations that change the members behind a test, or with vertices they insert,
  keep the invariant of the data model.
\<close>

lemma adj_at_push: "adj_at (adj_push a x y) u = (if u = x then adj_at a x @ [y] else adj_at a u)"
  by (simp add: adj_push_def adj_at_def)

lemma dom_adj_push: "dom (adj_push a x y) = insert x (dom a)"
  by (auto simp: adj_push_def)

lemma adj_at_touch: "adj_at (adj_touch a x) u = adj_at a u"
  by (simp add: adj_touch_def adj_at_def split: option.splits)

lemma dom_adj_touch: "dom (adj_touch a x) = insert x (dom a)"
  by (auto simp: adj_touch_def split: option.splits)

lemma graph_inv_add_edge: "graph_inv g \<Longrightarrow> graph_inv (graph_add_edge g u v)"
  unfolding graph_inv_def graph_add_edge_def Let_def
  by (simp add: adj_at_push dom_adj_push) blast

lemma graph_inv_clear: "graph_inv (graph_clear g)"
  by (simp add: graph_inv_def graph_clear_def adj_at_def)

lemma graph_inv_has_edge: "graph_inv g \<Longrightarrow> graph_inv (snd (graph_has_edge g start end))"
  by (simp add: graph_inv_def graph_has_edge_def adj_at_touch dom_adj_touch)

lemma graph_inv_members: "graph_inv (graph_members\<lparr>g_type := t\<rparr>)"
  by (simp add: graph_inv_def graph_members_def adj_at_def)

section \<open>Traversal from a start that is no vertex\<close>

text \<open>
  Claim C9. For a graph and for a weighted graph, \<^verbatim>\<open>dfs(start)\<close> and \<^verbatim>\<open>bfs(start)\<close>
  each return the empty sequence, as a normal result, whenever the graph is empty or
  \<^verbatim>\<open>start\<close> is not a vertex of it.
\<close>

theorem traversal_of_unknown_start_is_empty:
  "(graph_empty g \<or> start \<notin> g_elements g \<longrightarrow>
      graph_dfs g start = Some [] \<and> graph_bfs g start = Some [])
   \<and> (weighted_graph_empty wg \<or> wstart \<notin> wg_elements wg \<longrightarrow>
      weighted_graph_dfs wg wstart = Some [] \<and> weighted_graph_bfs wg wstart = Some [])"
  by (simp add: graph_dfs_def graph_bfs_def weighted_graph_dfs_def weighted_graph_bfs_def)

theorem traversal_of_unknown_start_is_empty_witness:
  "\<not> graph_empty (graph_object ''directed'' [(1 :: int, [2])])
   \<and> 7 \<notin> g_elements (graph_object ''directed'' [(1 :: int, [2])])
   \<and> graph_dfs (graph_object ''directed'' [(1 :: int, [2])]) 7 = Some []
   \<and> graph_bfs (graph_object ''directed'' [(1 :: int, [2])]) 7 = Some []
   \<and> weighted_graph_empty (weighted_graph_members :: int weighted_graph)
   \<and> weighted_graph_dfs (weighted_graph_members :: int weighted_graph) 1 = Some []
   \<and> weighted_graph_bfs (weighted_graph_members :: int weighted_graph) 1 = Some []"
proof -
  have a: "\<not> graph_empty (graph_object ''directed'' [(1 :: int, [2])])
     \<and> 7 \<notin> g_elements (graph_object ''directed'' [(1 :: int, [2])])"
    by (simp add: graph_empty_def build_simps)
  have b: "weighted_graph_empty (weighted_graph_members :: int weighted_graph)"
    by (simp add: weighted_graph_empty_def weighted_graph_members_def)
  show ?thesis
    using traversal_of_unknown_start_is_empty[of "graph_object ''directed'' [(1 :: int, [2])]" 7
        "weighted_graph_members :: int weighted_graph" 1] a b
    by simp
qed

section \<open>bellman_ford and the vertices without outgoing edges\<close>

lemma fold_upd_eq:
  "fold (\<lambda>k d. d(k \<mapsto> v)) ks m = (\<lambda>c. if c \<in> set ks then Some v else m c)"
  by (induction ks arbitrary: m) (auto simp: fun_eq_iff)

lemma bf_init_at:
  "bf_init ks start k = (if k = start then Some (Fin 0) else if k \<in> set ks then Some PInf else None)"
  by (simp add: bf_init_def fold_upd_eq)

lemma bf_init_dom: "dom (bf_init ks start) = set ks \<union> {start}"
  by (auto simp: bf_init_at dom_def)

lemma dlt_below: "dlt a b \<Longrightarrow> \<not> dlt (Fin 0) b \<Longrightarrow> \<not> dlt (Fin 0) a"
  by (cases a; cases b) auto

lemma dist_touch_amz: "at_most_zero d c \<Longrightarrow> at_most_zero (dist_touch d x) c"
  by (auto simp: at_most_zero_def dist_touch_def split: option.splits)

lemma dist_at_touch: "dist_touch d x x = Some (dist_at d x)"
  by (auto simp: dist_touch_def dist_at_def split: option.splits)

lemma bf_relax_amz: "at_most_zero d c \<Longrightarrow> at_most_zero (bf_relax j xs d) c"
proof (induction xs arbitrary: d)
  case Nil then show ?case by (simp add: bf_relax_def)
next
  case (Cons e xs)
  obtain x w where e: "e = (x, w)" by (cases e)
  let ?d = "dist_touch (dist_touch d j) x"
  have t: "at_most_zero ?d c" using Cons.prems by (intro dist_touch_amz)
  have "at_most_zero (if dlt (dadd (dist_at ?d j) w) (dist_at ?d x) then ?d(x \<mapsto> dadd (dist_at ?d j) w) else ?d) c"
  proof (cases "dlt (dadd (dist_at ?d j) w) (dist_at ?d x)")
    case True
    show ?thesis
    proof (cases "x = c")
      case xc: True
      have "?d x = Some (dist_at ?d x)" by (simp add: dist_at_touch dist_at_def)
      with t xc have "\<not> dlt (Fin 0) (dist_at ?d x)" by (simp add: at_most_zero_def)
      with True have "\<not> dlt (Fin 0) (dadd (dist_at ?d j) w)" using dlt_below by blast
      with True xc show ?thesis by (simp add: at_most_zero_def)
    next
      case False
      with t True show ?thesis by (simp add: at_most_zero_def)
    qed
  next
    case False
    with t show ?thesis by simp
  qed
  then have "at_most_zero (bf_relax j xs (if dlt (dadd (dist_at ?d j) w) (dist_at ?d x) then ?d(x \<mapsto> dadd (dist_at ?d j) w) else ?d)) c"
    by (rule Cons.IH)
  then show ?case by (simp add: bf_relax_def e Let_def)
qed

lemma bf_mark_amz: "at_most_zero d c \<Longrightarrow> at_most_zero (bf_mark j xs d) c"
proof (induction xs arbitrary: d)
  case Nil then show ?case by (simp add: bf_mark_def)
next
  case (Cons e xs)
  obtain x w where e: "e = (x, w)" by (cases e)
  let ?d = "dist_touch (dist_touch d j) x"
  have t: "at_most_zero ?d c" using Cons.prems by (intro dist_touch_amz)
  have "at_most_zero (if dlt (dadd (dist_at ?d j) w) (dist_at ?d x) then ?d(x \<mapsto> NInf) else ?d) c"
    using t by (auto simp: at_most_zero_def)
  then have "at_most_zero (bf_mark j xs (if dlt (dadd (dist_at ?d j) w) (dist_at ?d x) then ?d(x \<mapsto> NInf) else ?d)) c"
    by (rule Cons.IH)
  then show ?case by (simp add: bf_mark_def e Let_def)
qed

lemma fold_inv: "(\<And>x s. P s \<Longrightarrow> P (f x s)) \<Longrightarrow> P s \<Longrightarrow> P (fold f xs s)"
  by (induction xs arbitrary: s) auto

lemma funpow_inv: "(\<And>s. P s \<Longrightarrow> P (f s)) \<Longrightarrow> P s \<Longrightarrow> P ((f ^^ n) s)"
  by (induction n) auto

lemma bellman_ford_amz:
  assumes "c \<notin> set ks"
  shows "at_most_zero (bellman_ford g ks start) c"
proof -
  let ?P = "\<lambda>d. at_most_zero d c"
  have i: "?P (bf_init ks start)"
    using assms by (simp add: at_most_zero_def bf_init_at)
  have r: "?P (fold (\<lambda>j dst. bf_relax j (adj_at (wg_adj g) j) dst) ks d)" if "?P d" for d
    using that by (rule fold_inv[where P = ?P, rotated]) (rule bf_relax_amz)
  have m: "?P (fold (\<lambda>j dst. bf_mark j (adj_at (wg_adj g) j) dst) ks d)" if "?P d" for d
    using that by (rule fold_inv[where P = ?P, rotated]) (rule bf_mark_amz)
  have 1: "?P (((\<lambda>dst. fold (\<lambda>j dst. bf_relax j (adj_at (wg_adj g) j) dst) ks dst) ^^ n) (bf_init ks start))" for n
    using i by (rule funpow_inv[where P = ?P, rotated]) (rule r)
  have 2: "?P (((\<lambda>dst. fold (\<lambda>j dst. bf_mark j (adj_at (wg_adj g) j) dst) ks dst) ^^ n) d)" if "?P d" for n d
    using that by (rule funpow_inv[where P = ?P, rotated]) (rule m)
  show ?thesis
    unfolding bellman_ford_def Let_def by (rule 2) (rule 1)
qed

lemma add_edge_nonempty:
  assumes "\<forall>u ys. wg_adj g u = Some ys \<longrightarrow> ys \<noteq> []"
  shows "\<forall>u ys. wg_adj (weighted_graph_add_edge g x y w) u = Some ys \<longrightarrow> ys \<noteq> []"
  using assms by (auto simp: weighted_graph_add_edge_def adj_push_def Let_def)

lemma fold_add_edge_nonempty:
  "\<forall>u ys. wg_adj g u = Some ys \<longrightarrow> ys \<noteq> [] \<Longrightarrow>
   \<forall>u ys. wg_adj (fold (\<lambda>((u, v), w) g. weighted_graph_add_edge g u v w) a g) u = Some ys \<longrightarrow> ys \<noteq> []"
proof (induction a arbitrary: g)
  case Nil then show ?case by simp
next
  case (Cons e a)
  obtain x y w where e: "e = ((x, y), w)" by (metis prod.collapse)
  show ?case using Cons.IH[OF add_edge_nonempty[OF Cons.prems, of x y w]] by (simp add: e)
qed

lemma object_keys:
  assumes "t = ''directed'' \<or> t = ''undirected''"
  shows "dom (wg_adj (weighted_graph_object t a)) = {u. wg_nb (weighted_graph_object t a) u \<noteq> []}"
proof -
  have o: "weighted_graph_object t a = fold (\<lambda>((u, v), w) g. weighted_graph_add_edge g u v w) a (weighted_graph_members\<lparr>wg_type := t\<rparr>)"
    using assms by (auto simp add: weighted_graph_object_def weighted_graph_ctor_def weighted_graph_try_def)
  have "\<forall>u ys. wg_adj (weighted_graph_object t a) u = Some ys \<longrightarrow> ys \<noteq> []"
    unfolding o by (rule fold_add_edge_nonempty) (simp add: weighted_graph_members_def)
  then show ?thesis by (auto simp: wg_nb_def adj_at_def dom_def split: option.splits)
qed

lemma chain_adj: "a \<noteq> b \<Longrightarrow> wg_adj (chain a b c) = [a \<mapsto> [(b, 5)], b \<mapsto> [(c, 5)]]"
  by (simp add: chain_def build_simps)

lemma chain_bellman_ford:
  assumes "a \<noteq> b" and "b \<noteq> c" and "a \<noteq> c"
    and "distinct ks" and "set ks = dom (wg_adj (chain a b c))"
  shows "bellman_ford (chain a b c) ks a c = Some (Fin 0)
       \<and> bellman_ford (chain a b c) ks a b = Some (Fin 5)"
proof -
  have "set ks = {a, b}" using assms by (auto simp: chain_adj)
  then have "ks = [a, b] \<or> ks = [b, a]" using assms two_enum by metis
  then show ?thesis
  proof
    assume "ks = [a, b]"
    then show ?thesis using assms(1,2,3) by (simp add: bf_simps chain_adj)
  next
    assume "ks = [b, a]"
    then show ?thesis using assms(1,2,3) by (simp add: bf_simps chain_adj)
  qed
qed

lemma neg_sink_adj: "wg_adj neg_sink = [1 \<mapsto> [(3, - 5)], 2 \<mapsto> [(1, 1)]]"
  by (simp add: neg_sink_def build_simps)

text \<open>The keys that a query leaves, and the chain after \<^verbatim>\<open>cycle()\<close>.\<close>

lemma fold_adj_touch:
  "fold (\<lambda>x a. adj_touch a x) es m = (\<lambda>x. if x \<in> set es \<and> m x = None then Some [] else m x)"
  by (induction es arbitrary: m) (auto simp: adj_touch_def fun_eq_iff split: option.splits)

lemma chain_elements: "wg_elements (chain a b c) = {a, b, c}"
  by (auto simp: chain_def build_simps)

lemma chain_after_cycle_adj:
  assumes "a \<noteq> b" and "b \<noteq> c" and "a \<noteq> c" and "set es = wg_elements (chain a b c)"
  shows "wg_adj (weighted_graph_after_cycle (chain a b c) es)
           = [a \<mapsto> [(b, 5)], b \<mapsto> [(c, 5)], c \<mapsto> []]"
  using assms
  by (auto simp: weighted_graph_after_cycle_def fold_adj_touch chain_elements chain_adj fun_eq_iff)

lemma three_enum:
  assumes "distinct ks" and "set ks = {a, b, c}" and "a \<noteq> b" and "b \<noteq> c" and "a \<noteq> c"
  shows "ks = [a, b, c] \<or> ks = [a, c, b] \<or> ks = [b, a, c] \<or> ks = [b, c, a]
       \<or> ks = [c, a, b] \<or> ks = [c, b, a]"
proof -
  have "length ks = 3" using assms distinct_card[of ks] by simp
  then obtain x y z where k: "ks = [x, y, z]"
    by (auto simp: numeral_3_eq_3 length_Suc_conv)
  have "x \<in> {a, b, c}" "y \<in> {a, b, c}" "z \<in> {a, b, c}"
    using assms(2) unfolding k by auto
  moreover have "x \<noteq> y" "y \<noteq> z" "x \<noteq> z" using assms(1) unfolding k by auto
  ultimately show ?thesis unfolding k by auto
qed

lemma chain_after_cycle_bellman_ford:
  assumes "a \<noteq> b" and "b \<noteq> c" and "a \<noteq> c" and es: "set es = wg_elements (chain a b c)"
    and "distinct ks" and ks: "set ks = dom (wg_adj (weighted_graph_after_cycle (chain a b c) es))"
  shows "bellman_ford (weighted_graph_after_cycle (chain a b c) es) ks a c = Some (Fin 10)"
proof -
  note adj = chain_after_cycle_adj[OF assms(1,2,3) es]
  note ev = bf_init_def bf_relax_def bf_mark_def adj_at_def dist_at_def dist_touch_def dround_small
  have "set ks = {a, b, c}" using ks unfolding adj by auto
  from three_enum[OF assms(5) this assms(1,2,3)]
  have cs: "ks = [a, b, c] \<or> ks = [a, c, b] \<or> ks = [b, a, c] \<or> ks = [b, c, a]
       \<or> ks = [c, a, b] \<or> ks = [c, b, a]" .
  then have n: "nat (int (length ks) - 1) = Suc (Suc 0)" by auto
  show ?thesis
    unfolding bellman_ford_def Let_def n adj
  proof -
    from cs consider "ks = [a, b, c]" | "ks = [a, c, b]" | "ks = [b, a, c]" | "ks = [b, c, a]"
      | "ks = [c, a, b]" | "ks = [c, b, a]" by blast
    then show "((\<lambda>dst. fold (\<lambda>j. bf_mark j (adj_at [a \<mapsto> [(b, 5)], b \<mapsto> [(c, 5)], c \<mapsto> []] j)) ks dst) ^^ Suc (Suc 0))
         (((\<lambda>dst. fold (\<lambda>j. bf_relax j (adj_at [a \<mapsto> [(b, 5)], b \<mapsto> [(c, 5)], c \<mapsto> []] j)) ks dst) ^^ Suc (Suc 0))
            (bf_init ks a)) c = Some (Fin 10)"
    proof cases
      case 1 then show ?thesis using assms(1,2,3) by (simp add: ev)
    next
      case 2 then show ?thesis using assms(1,2,3) by (simp add: ev)
    next
      case 3 then show ?thesis using assms(1,2,3) by (simp add: ev)
    next
      case 4 then show ?thesis using assms(1,2,3) by (simp add: ev)
    next
      case 5 then show ?thesis using assms(1,2,3) by (simp add: ev)
    next
      case 6 then show ?thesis using assms(1,2,3) by (simp add: ev)
    qed
  qed
qed

lemma object_sink_amz:
  assumes "t = ''directed'' \<or> t = ''undirected''"
    and "set ks = dom (wg_adj (weighted_graph_object t edges))"
    and "wg_nb (weighted_graph_object t edges) v = []"
  shows "at_most_zero (bellman_ford (weighted_graph_object t edges) ks start) v"
proof -
  have "v \<notin> set ks" using assms(2,3) object_keys[OF assms(1), of edges] by simp
  then show ?thesis by (rule bellman_ford_amz)
qed

text \<open>
  Claim C10, as stated: a vertex that appears only as an edge destination is missing from
  the mapping of \<^verbatim>\<open>bellman_ford\<close> or reported with the distance 0. In the directed graph
  1 \<rightarrow> 3 : -5, 2 \<rightarrow> 1 : 1 the vertex 3 has no outgoing edge and no entry in \<^verbatim>\<open>adj\<close>;
  \<^verbatim>\<open>bellman_ford(1)\<close> reports it with the distance -5, in both enumerations of the keys:
  the first read of \<^verbatim>\<open>dist[3]\<close> stores 0, and the relaxation of 1 \<rightarrow> 3 lowers it.
\<close>

theorem bellman_ford_sink_below_zero:
  "3 \<notin> dom (wg_adj neg_sink) \<and> wg_nb neg_sink 3 = [] \<and> 3 \<in> set (wg_nb neg_sink 1)
   \<and> bellman_ford neg_sink [1, 2] 1 3 = Some (Fin (- 5))
   \<and> bellman_ford neg_sink [2, 1] 1 3 = Some (Fin (- 5))"
  by (simp add: bf_simps neg_sink_adj wg_nb_def)

text \<open>
  Claim C10, amended: \<^verbatim>\<open>bellman_ford\<close> initialises a distance (infinity, or 0 for the
  start) for the keys of \<^verbatim>\<open>adj\<close> and for the start only. In a graph as the constructor
  and \<^verbatim>\<open>add_edge\<close> leave it the keys are the vertices with at least one outgoing edge,
  so that a vertex that appears only as an edge destination is no key. A vertex that is
  no key is either missing from the returned mapping or reported with a distance that is
  not above the default 0 of the map. In the directed graph A \<rightarrow> B : 5, B \<rightarrow> C : 5,
  \<^verbatim>\<open>bellman_ford(A)\<close> reports the distance of C as 0, and that of B as 5. This is a
  property of the keys and not of the edges: once \<^verbatim>\<open>cycle()\<close> or
  \<^verbatim>\<open>topological_sort()\<close> has run on a graph, every vertex is a key, with the edges it
  had; on the graph of the example C is a key with an empty vector then, and
  \<^verbatim>\<open>bellman_ford(A)\<close> reports the distance of C as 10.
\<close>

theorem bellman_ford_destination_only:
  "(t = ''directed'' \<or> t = ''undirected'' \<longrightarrow>
      dom (wg_adj (weighted_graph_object t edges))
        = {u. wg_nb (weighted_graph_object t edges) u \<noteq> []})
   \<and> (set ks = dom (wg_adj g) \<longrightarrow>
        dom (bf_init ks start) = dom (wg_adj g) \<union> {start}
        \<and> (\<forall>k \<in> dom (wg_adj g). bf_init ks start k = Some (if k = start then Fin 0 else PInf)))
   \<and> (set ks = dom (wg_adj g) \<and> v \<notin> dom (wg_adj g) \<longrightarrow>
        at_most_zero (bellman_ford g ks start) v)
   \<and> ((t = ''directed'' \<or> t = ''undirected'')
        \<and> set ks0 = dom (wg_adj (weighted_graph_object t edges))
        \<and> wg_nb (weighted_graph_object t edges) v0 = [] \<longrightarrow>
        at_most_zero (bellman_ford (weighted_graph_object t edges) ks0 start) v0)
   \<and> (a \<noteq> b \<and> b \<noteq> c \<and> a \<noteq> c \<and> distinct ks' \<and> set ks' = dom (wg_adj (chain a b c)) \<longrightarrow>
        c \<notin> dom (wg_adj (chain a b c))
        \<and> bellman_ford (chain a b c) ks' a c = Some (Fin 0)
        \<and> bellman_ford (chain a b c) ks' a b = Some (Fin 5))
   \<and> (v \<in> set es \<longrightarrow>
        v \<in> dom (wg_adj (weighted_graph_after_cycle g es))
        \<and> wg_nb (weighted_graph_after_cycle g es) v = wg_nb g v)
   \<and> (a \<noteq> b \<and> b \<noteq> c \<and> a \<noteq> c \<and> set es = wg_elements (chain a b c) \<and> distinct ks''
        \<and> set ks'' = dom (wg_adj (weighted_graph_after_cycle (chain a b c) es)) \<longrightarrow>
        c \<in> dom (wg_adj (weighted_graph_after_cycle (chain a b c) es))
        \<and> wg_nb (weighted_graph_after_cycle (chain a b c) es) c = []
        \<and> bellman_ford (weighted_graph_after_cycle (chain a b c) es) ks'' a c = Some (Fin 10))"
proof (intro conjI impI)
  assume "t = ''directed'' \<or> t = ''undirected''"
  then show "dom (wg_adj (weighted_graph_object t edges))
      = {u. wg_nb (weighted_graph_object t edges) u \<noteq> []}"
    by (rule object_keys)
next
  assume "set ks = dom (wg_adj g)"
  then show "dom (bf_init ks start) = dom (wg_adj g) \<union> {start}"
    by (simp add: bf_init_dom)
next
  assume k: "set ks = dom (wg_adj g)"
  show "\<forall>k \<in> dom (wg_adj g). bf_init ks start k = Some (if k = start then Fin 0 else PInf)"
    unfolding k[symmetric] by (simp add: bf_init_at)
next
  assume "set ks = dom (wg_adj g) \<and> v \<notin> dom (wg_adj g)"
  then have "v \<notin> set ks" by simp
  then show "at_most_zero (bellman_ford g ks start) v"
    by (rule bellman_ford_amz)
next
  assume "(t = ''directed'' \<or> t = ''undirected'')
        \<and> set ks0 = dom (wg_adj (weighted_graph_object t edges))
        \<and> wg_nb (weighted_graph_object t edges) v0 = []"
  then show "at_most_zero (bellman_ford (weighted_graph_object t edges) ks0 start) v0"
    using object_sink_amz[of t ks0 edges v0 start] by simp
next
  assume h: "a \<noteq> b \<and> b \<noteq> c \<and> a \<noteq> c \<and> distinct ks' \<and> set ks' = dom (wg_adj (chain a b c))"
  then show "c \<notin> dom (wg_adj (chain a b c))" by (auto simp: chain_adj)
  from h chain_bellman_ford[of a b c ks']
  show "bellman_ford (chain a b c) ks' a c = Some (Fin 0)"
    and "bellman_ford (chain a b c) ks' a b = Some (Fin 5)"
    by simp_all
next
  assume "v \<in> set es"
  then show "v \<in> dom (wg_adj (weighted_graph_after_cycle g es))"
    and "wg_nb (weighted_graph_after_cycle g es) v = wg_nb g v"
    by (auto simp: weighted_graph_after_cycle_def fold_adj_touch wg_nb_def adj_at_def
        split: option.splits)
next
  assume h: "a \<noteq> b \<and> b \<noteq> c \<and> a \<noteq> c \<and> set es = wg_elements (chain a b c) \<and> distinct ks''
        \<and> set ks'' = dom (wg_adj (weighted_graph_after_cycle (chain a b c) es))"
  then have adj: "wg_adj (weighted_graph_after_cycle (chain a b c) es)
      = [a \<mapsto> [(b, 5)], b \<mapsto> [(c, 5)], c \<mapsto> []]"
    using chain_after_cycle_adj[of a b c es] by simp
  show "c \<in> dom (wg_adj (weighted_graph_after_cycle (chain a b c) es))"
    unfolding adj by simp
  show "wg_nb (weighted_graph_after_cycle (chain a b c) es) c = []"
    unfolding wg_nb_def adj by (simp add: adj_at_def)
  show "bellman_ford (weighted_graph_after_cycle (chain a b c) es) ks'' a c = Some (Fin 10)"
    using h chain_after_cycle_bellman_ford[of a b c es ks''] by simp
qed

theorem bellman_ford_destination_only_witness:
  "set [1, 2 :: int] = dom (wg_adj (chain (1 :: int) 2 3))
   \<and> (3 :: int) \<notin> dom (wg_adj (chain (1 :: int) 2 3))
   \<and> wg_nb (chain (1 :: int) 2 3) 3 = []
   \<and> dom (bf_init [1, 2 :: int] 1) = dom (wg_adj (chain (1 :: int) 2 3)) \<union> {1}
   \<and> at_most_zero (bellman_ford (chain (1 :: int) 2 3) [1, 2] 1) 3
   \<and> (1 :: int) \<noteq> 2 \<and> (2 :: int) \<noteq> 3 \<and> (1 :: int) \<noteq> 3 \<and> distinct [2, 1 :: int]
   \<and> set [2, 1 :: int] = dom (wg_adj (chain (1 :: int) 2 3))
   \<and> bellman_ford (chain (1 :: int) 2 3) [2, 1] 1 3 = Some (Fin 0)
   \<and> dom (wg_adj (weighted_graph_object ''directed'' [((1 :: int, 2 :: int), 5), ((2, 3), 5)]))
       = {u. wg_nb (weighted_graph_object ''directed'' [((1 :: int, 2 :: int), 5), ((2, 3), 5)]) u \<noteq> []}
   \<and> (3 :: int) \<in> set [3, 1, 2]
   \<and> (3 :: int) \<in> dom (wg_adj (weighted_graph_after_cycle (chain (1 :: int) 2 3) [3, 1, 2]))
   \<and> set [3, 1, 2 :: int] = wg_elements (chain (1 :: int) 2 3) \<and> distinct [3, 2, 1 :: int]
   \<and> set [3, 2, 1 :: int] = dom (wg_adj (weighted_graph_after_cycle (chain (1 :: int) 2 3) [3, 1, 2]))
   \<and> bellman_ford (weighted_graph_after_cycle (chain (1 :: int) 2 3) [3, 1, 2]) [3, 2, 1] 1 3
       = Some (Fin 10)"
proof -
  have k: "set [1, 2 :: int] = dom (wg_adj (chain (1 :: int) 2 3))"
    and k': "set [2, 1 :: int] = dom (wg_adj (chain (1 :: int) 2 3))"
    and n: "(3 :: int) \<notin> dom (wg_adj (chain (1 :: int) 2 3))"
    and s: "wg_nb (chain (1 :: int) 2 3) 3 = []"
    by (auto simp: chain_adj wg_nb_def adj_at_def)
  have e: "set [3, 1, 2 :: int] = wg_elements (chain (1 :: int) 2 3)"
    by (auto simp: chain_elements)
  have "wg_adj (weighted_graph_after_cycle (chain (1 :: int) 2 3) [3, 1, 2])
      = [1 \<mapsto> [(2, 5)], 2 \<mapsto> [(3, 5)], 3 \<mapsto> []]"
    by (rule chain_after_cycle_adj) (simp_all add: chain_elements, auto)
  then have k'': "set [3, 2, 1 :: int]
      = dom (wg_adj (weighted_graph_after_cycle (chain (1 :: int) 2 3) [3, 1, 2]))"
    by auto
  have o: "chain (1 :: int) 2 3 = weighted_graph_object ''directed'' [((1, 2), 5), ((2, 3), 5)]"
    by (simp add: chain_def)
  show ?thesis
    using bellman_ford_destination_only[where t = "''directed''"
        and edges = "[((1 :: int, 2 :: int), 5), ((2, 3), 5)]" and ks = "[1, 2 :: int]"
        and g = "chain (1 :: int) 2 3" and start = 1 and v = 3 and ks0 = "[1, 2 :: int]"
        and ?v0.0 = 3 and a = "1 :: int" and b = 2 and c = 3 and ks' = "[2, 1]"
        and es = "[3, 1, 2]" and ks'' = "[3, 2, 1]"]
      k k' n s e k''
    by (simp add: o[symmetric])
qed

section \<open>Termination of Kahn's algorithm\<close>



lemma pos_upd_subset: "{y. 0 < (indeg(x := indeg x - 1)) y} \<subseteq> {y. (0::int) < indeg y}"
  by auto



lemma indeg_count_support: "{x. 0 < indeg_count nb es x} \<subseteq> (\<Union>x\<in>set es. set (nb x))"
proof
  fix z assume "z \<in> {x. 0 < indeg_count nb es x}"
  then have "0 < (\<Sum>x\<leftarrow>es. int (count_list (nb x) z))" by (simp add: indeg_count_eq)
  moreover have "(\<Sum>x\<leftarrow>es. int (count_list (nb x) z)) = 0"
    if "\<forall>x\<in>set es. count_list (nb x) z = 0"
    using that by (induction es) auto
  ultimately obtain x where "x \<in> set es" "0 < count_list (nb x) z" by force
  then show "z \<in> (\<Union>x\<in>set es. set (nb x))"
    by (auto simp: count_list_0_iff intro: ccontr)
qed

lemma indeg_count_finite: "finite {x. 0 < indeg_count nb es x}"
  by (rule finite_subset[OF indeg_count_support]) simp






lemma topological_relax_Nil: "topological_relax [] qiv = qiv"
  by (simp add: topological_relax_def)

lemma topological_relax_Cons:
  "topological_relax (x # xs) (q, indeg, vis) =
     topological_relax xs
       (if x \<notin> vis
        then (if indeg x = 1 then (q @ [x], indeg(x := 0), insert x vis)
              else (q, indeg(x := indeg x - 1), vis))
        else (q, indeg, vis))"
  by (simp add: topological_relax_def Let_def)

lemma topological_relax_measure:
  assumes "finite {x. 0 < indeg x}"
  shows "finite {x. 0 < fst (snd (topological_relax xs (q, indeg, vis))) x} \<and>
         card {x. 0 < fst (snd (topological_relax xs (q, indeg, vis))) x}
           + length (fst (topological_relax xs (q, indeg, vis)))
           \<le> card {x. 0 < indeg x} + length q \<and>
         set (fst (topological_relax xs (q, indeg, vis))) \<subseteq> set q \<union> set xs"
  using assms
proof (induction xs arbitrary: q indeg vis)
  case Nil
  then show ?case by (simp add: topological_relax_Nil)
next
  case (Cons x xs)
  let ?S = "{y. 0 < indeg y}"
  consider (push) "x \<notin> vis" "indeg x = 1" | (dec) "x \<notin> vis" "indeg x \<noteq> 1" | (skip) "x \<in> vis"
    by blast
  then show ?case
  proof cases
    case push
    have eq: "{y. 0 < (indeg(x := 0)) y} = ?S - {x}" by auto
    have xin: "x \<in> ?S" using push by simp
    have fin: "finite {y. 0 < (indeg(x := 0)) y}" using Cons.prems eq by simp
    have c: "card {y. 0 < (indeg(x := 0)) y} + 1 = card ?S"
      unfolding eq using card_Suc_Diff1[OF Cons.prems xin] by simp
    let ?r = "topological_relax xs (q @ [x], indeg(x := 0), insert x vis)"
    have step: "topological_relax (x # xs) (q, indeg, vis) = ?r"
      using push by (simp add: topological_relax_Cons)
    have "finite {y. 0 < fst (snd ?r) y} \<and> card {y. 0 < fst (snd ?r) y} + length (fst ?r)
        \<le> card {y. 0 < (indeg(x := 0)) y} + length (q @ [x]) \<and>
        set (fst ?r) \<subseteq> set (q @ [x]) \<union> set xs"
      by (rule Cons.IH[OF fin])
    then show ?thesis unfolding step using c by (auto simp del: fun_upd_apply)
  next
    case dec
    have sub: "{y. 0 < (indeg(x := indeg x - 1)) y} \<subseteq> ?S" by auto
    have fin: "finite {y. 0 < (indeg(x := indeg x - 1)) y}"
      using Cons.prems sub by (rule rev_finite_subset)
    have c: "card {y. 0 < (indeg(x := indeg x - 1)) y} \<le> card ?S"
      using Cons.prems sub by (rule card_mono)
    let ?r = "topological_relax xs (q, indeg(x := indeg x - 1), vis)"
    have step: "topological_relax (x # xs) (q, indeg, vis) = ?r"
      using dec by (simp add: topological_relax_Cons)
    have "finite {y. 0 < fst (snd ?r) y} \<and> card {y. 0 < fst (snd ?r) y} + length (fst ?r)
        \<le> card {y. 0 < (indeg(x := indeg x - 1)) y} + length q \<and>
        set (fst ?r) \<subseteq> set q \<union> set xs"
      by (rule Cons.IH[OF fin])
    then show ?thesis unfolding step using c by (auto simp del: fun_upd_apply)
  next
    case skip
    let ?r = "topological_relax xs (q, indeg, vis)"
    have step: "topological_relax (x # xs) (q, indeg, vis) = ?r"
      using skip by (simp add: topological_relax_Cons)
    have "finite {y. 0 < fst (snd ?r) y} \<and> card {y. 0 < fst (snd ?r) y} + length (fst ?r)
        \<le> card {y. 0 < indeg y} + length q \<and>
        set (fst ?r) \<subseteq> set q \<union> set xs"
      by (rule Cons.IH[OF Cons.prems])
    then show ?thesis unfolding step by auto
  qed
qed



section \<open>The order of the doubles\<close>








section \<open>Relaxation leaves unreachable vertices alone, and ends\<close>





















section \<open>The relaxation, pass by pass\<close>











section \<open>A negative cycle keeps the relaxation running\<close>



























section \<open>Rounding is monotone and idempotent\<close>


lemma lt_div_mult:
  assumes "(0::int) < P"
  shows "x < (x div P + 1) * P"
proof -
  have "(x div P + 1) * P = (x div P) * P + P" by (simp add: algebra_simps)
  then show ?thesis
    using div_mult_mod_eq[of x P] pos_mod_bound[OF assms, of x] by linarith
qed















section \<open>The priority queue without negative weights\<close>





















section \<open>Graphs without a negative cycle\<close>



lemma two_harbours_adj:
  "wg_adj two_harbours = [1 \<mapsto> [(2, 5)], 2 \<mapsto> [(1, 5)], 3 \<mapsto> [(4, 1)], 4 \<mapsto> [(3, 1)]]"
  by (simp add: two_harbours_def build_simps fun_upd_twist)















section \<open>The order that topological_sort produces\<close>

text \<open>
  For every enumeration \<open>es\<close> of a vertex set that holds all neighbours,
  \<^verbatim>\<open>topological_sort()\<close> ends, and in the sequence it returns every inserted edge
  \<open>(u, v)\<close> whose end \<open>v\<close> is in the sequence has \<open>u\<close> before \<open>v\<close>. The sequence
  holds every vertex exactly when Kahn's algorithm removes every vertex, which is not what
  \<^verbatim>\<open>cycle()\<close> tests.
\<close>

lemma pending_nonneg: "0 \<le> pending nb es D v"
  unfolding pending_def by (induction es) auto

lemma pending_empty: "pending nb es {} v = indeg_count nb es v"
  by (simp add: pending_def indeg_count_eq)

lemma pending_insert_notin: "c \<notin> set es \<Longrightarrow> pending nb es (insert c D) v = pending nb es D v"
  unfolding pending_def by (induction es) auto

lemma pending_insert:
  assumes "distinct es" and "c \<in> set es" and "c \<notin> D"
  shows "pending nb es (insert c D) v = pending nb es D v - int (count_list (nb c) v)"
  using assms
proof (induction es)
  case Nil
  then show ?case by simp
next
  case (Cons e es)
  show ?case
  proof (cases "e = c")
    case True
    then have "c \<notin> set es" using Cons.prems by simp
    then have "pending nb es (insert c D) v = pending nb es D v" by (rule pending_insert_notin)
    then show ?thesis using True Cons.prems by (simp add: pending_def)
  next
    case False
    then have "pending nb es (insert c D) v = pending nb es D v - int (count_list (nb c) v)"
      using Cons by simp
    then show ?thesis using False by (simp add: pending_def)
  qed
qed

lemma pending_zero_pred:
  assumes "pending nb es D v = 0" and "u \<in> set es" and "v \<in> set (nb u)"
  shows "u \<in> D"
proof (rule ccontr)
  assume n: "u \<notin> D"
  have "int (count_list (nb u) v) \<le> pending nb es D v"
    using assms(2) n unfolding pending_def
  proof (induction es)
    case Nil
    then show ?case by simp
  next
    case (Cons e es)
    have nn: "0 \<le> (\<Sum>u\<leftarrow>es. if u \<in> D then 0 else int (count_list (nb u) v))"
      using pending_nonneg[of nb es D v] by (simp add: pending_def)
    show ?case
    proof (cases "e = u")
      case True
      then show ?thesis using Cons.prems nn by simp
    next
      case False
      then have "int (count_list (nb u) v) \<le> (\<Sum>u\<leftarrow>es. if u \<in> D then 0 else int (count_list (nb u) v))"
        using Cons by simp
      then show ?thesis by simp
    qed
  qed
  moreover have "count_list (nb u) v \<noteq> 0" using assms(3) by (simp add: count_list_0_iff)
  ultimately show False using assms(1) by simp
qed

lemma precedes_append: "precedes ts u v \<Longrightarrow> precedes (ts @ zs) u v"
  by (induction ts) auto

lemma precedes_append_last: "u \<in> set ts \<Longrightarrow> precedes (ts @ [c]) u c"
  by (induction ts) auto

lemma topological_relax_inv:
  assumes "distinct (ts @ q)" and "vis = set ts \<union> set q"
    and "\<forall>v. v \<notin> vis \<longrightarrow> indeg v = P v + int (count_list xs v)"
    and "\<forall>v\<in>set q. P v = 0" and "\<forall>v. 0 \<le> P v"
  shows "distinct (ts @ fst (topological_relax xs (q, indeg, vis)))
       \<and> snd (snd (topological_relax xs (q, indeg, vis)))
           = set ts \<union> set (fst (topological_relax xs (q, indeg, vis)))
       \<and> (\<forall>v. v \<notin> snd (snd (topological_relax xs (q, indeg, vis))) \<longrightarrow>
             fst (snd (topological_relax xs (q, indeg, vis))) v = P v)
       \<and> (\<forall>v\<in>set (fst (topological_relax xs (q, indeg, vis))). P v = 0)"
  using assms(1-4)
proof (induction xs arbitrary: q indeg vis)
  case Nil
  then show ?case by (simp add: topological_relax_Nil)
next
  case (Cons x xs)
  consider (push) "x \<notin> vis" "indeg x = 1" | (dec) "x \<notin> vis" "indeg x \<noteq> 1" | (skip) "x \<in> vis"
    by blast
  then show ?case
  proof cases
    case push
    let ?r = "topological_relax xs (q @ [x], indeg(x := 0), insert x vis)"
    have step: "topological_relax (x # xs) (q, indeg, vis) = ?r"
      using push by (simp add: topological_relax_Cons)
    have "indeg x = P x + int (count_list (x # xs) x)" using Cons.prems(3) push by blast
    then have px: "P x = 0" and cx: "count_list xs x = 0"
      using push(2) assms(5)[rule_format, of x] by simp_all
    have 1: "distinct (ts @ (q @ [x]))" using Cons.prems(1,2) push by auto
    have 2: "insert x vis = set ts \<union> set (q @ [x])" using Cons.prems(2) by auto
    have 3: "\<forall>v. v \<notin> insert x vis \<longrightarrow> (indeg(x := 0)) v = P v + int (count_list xs v)"
      using Cons.prems(3) by auto
    have 4: "\<forall>v\<in>set (q @ [x]). P v = 0" using Cons.prems(4) px by auto
    show ?thesis unfolding step by (rule Cons.IH[OF 1 2 3 4])
  next
    case dec
    let ?r = "topological_relax xs (q, indeg(x := indeg x - 1), vis)"
    have step: "topological_relax (x # xs) (q, indeg, vis) = ?r"
      using dec by (simp add: topological_relax_Cons)
    have 3: "\<forall>v. v \<notin> vis \<longrightarrow> (indeg(x := indeg x - 1)) v = P v + int (count_list xs v)"
      using Cons.prems(3) by auto
    show ?thesis unfolding step by (rule Cons.IH[OF Cons.prems(1,2) 3 Cons.prems(4)])
  next
    case skip
    let ?r = "topological_relax xs (q, indeg, vis)"
    have step: "topological_relax (x # xs) (q, indeg, vis) = ?r"
      using skip by (simp add: topological_relax_Cons)
    have 3: "\<forall>v. v \<notin> vis \<longrightarrow> indeg v = P v + int (count_list xs v)"
      using Cons.prems(3) skip by auto
    show ?thesis unfolding step by (rule Cons.IH[OF Cons.prems(1,2) 3 Cons.prems(4)])
  qed
qed

lemma topological_loop_ordered:
  assumes es: "distinct es" and closed: "\<And>u. set (nb u) \<subseteq> set es"
    and "finite {x. 0 < indeg x}"
    and "distinct (ts @ q)" and "set (ts @ q) \<subseteq> set es" and "vis = set ts \<union> set q"
    and "\<forall>v. v \<notin> vis \<longrightarrow> indeg v = pending nb es (set ts) v"
    and "\<forall>v\<in>set q. pending nb es (set ts) v = 0"
    and "\<forall>u\<in>set es. \<forall>v\<in>set (nb u). v \<in> set ts \<longrightarrow> precedes ts u v"
  shows "\<exists>r. topological_loop nb q indeg vis ts = Some r \<and> distinct r \<and> set r \<subseteq> set es
       \<and> (\<forall>u\<in>set es. \<forall>v\<in>set (nb u). v \<in> set r \<longrightarrow> precedes r u v)"
  using assms(3-9)
proof (induction "card {x. 0 < indeg x} + length q" arbitrary: q indeg vis ts rule: less_induct)
  case less
  show ?case
  proof (cases q)
    case Nil
    then show ?thesis using less.prems by (simp add: topological_loop_Nil)
  next
    case (Cons c q')
    let ?ts = "ts @ [c]"
    let ?P = "pending nb es (set ?ts)"
    let ?r = "topological_relax (nb c) (q', indeg, vis)"
    have cE: "c \<in> set es" and cts: "c \<notin> set ts" using less.prems(2,3) Cons by auto
    have Pc: "?P v = pending nb es (set ts) v - int (count_list (nb c) v)" for v
      using pending_insert[OF es cE cts] by simp
    have d1: "distinct (?ts @ q')" using less.prems(2) Cons by auto
    have v1: "vis = set ?ts \<union> set q'" using less.prems(4) Cons by auto
    have b1: "\<forall>v. v \<notin> vis \<longrightarrow> indeg v = ?P v + int (count_list (nb c) v)"
      using less.prems(5) Pc by simp
    have c1: "\<forall>v\<in>set q'. ?P v = 0"
    proof
      fix v assume "v \<in> set q'"
      then have "pending nb es (set ts) v = 0" using less.prems(6) Cons by simp
      moreover have "0 \<le> ?P v" by (rule pending_nonneg)
      ultimately show "?P v = 0" using Pc[of v] by simp
    qed
    have n1: "\<forall>v. 0 \<le> ?P v" by (simp add: pending_nonneg)
    have inv: "distinct (?ts @ fst ?r) \<and> snd (snd ?r) = set ?ts \<union> set (fst ?r)
        \<and> (\<forall>v. v \<notin> snd (snd ?r) \<longrightarrow> fst (snd ?r) v = ?P v) \<and> (\<forall>v\<in>set (fst ?r). ?P v = 0)"
      by (rule topological_relax_inv[OF d1 v1 b1 c1 n1])
    from topological_relax_measure[OF less.prems(1), of "nb c" q' vis]
    have fin: "finite {x. 0 < fst (snd ?r) x}"
      and le: "card {x. 0 < fst (snd ?r) x} + length (fst ?r) \<le> card {x. 0 < indeg x} + length q'"
      and sub: "set (fst ?r) \<subseteq> set q' \<union> set (nb c)"
      by simp_all
    have m: "card {x. 0 < fst (snd ?r) x} + length (fst ?r) < card {x. 0 < indeg x} + length q"
      using le Cons by simp
    have s1: "set (?ts @ fst ?r) \<subseteq> set es"
      using sub less.prems(3) closed[of c] Cons by auto
    have o1: "\<forall>u\<in>set es. \<forall>v\<in>set (nb u). v \<in> set ?ts \<longrightarrow> precedes ?ts u v"
    proof (intro ballI impI)
      fix u v assume u: "u \<in> set es" and v: "v \<in> set (nb u)" and t: "v \<in> set ?ts"
      show "precedes ?ts u v"
      proof (cases "v \<in> set ts")
        case True
        then show ?thesis using less.prems(7) u v by (auto intro: precedes_append)
      next
        case False
        then have vc: "v = c" using t by simp
        have "pending nb es (set ts) c = 0" using less.prems(6) Cons by simp
        then have "u \<in> set ts" using u v vc by (auto intro: pending_zero_pred)
        then show ?thesis unfolding vc by (rule precedes_append_last)
      qed
    qed
    from less.hyps[OF m fin _ s1 _ _ _ o1, of "snd (snd ?r)"] inv
    have "\<exists>r. topological_loop nb (fst ?r) (fst (snd ?r)) (snd (snd ?r)) ?ts = Some r \<and> distinct r
        \<and> set r \<subseteq> set es \<and> (\<forall>u\<in>set es. \<forall>v\<in>set (nb u). v \<in> set r \<longrightarrow> precedes r u v)"
      by blast
    then show ?thesis by (simp add: Cons topological_loop_Cons split_beta)
  qed
qed

lemma topological_sort_ordered:
  assumes "distinct es" and "\<And>u. set (nb u) \<subseteq> set es"
  shows "\<exists>r. topological_sort nb es = Some r \<and> distinct r \<and> set r \<subseteq> set es
       \<and> (\<forall>u\<in>set es. \<forall>v\<in>set (nb u). v \<in> set r \<longrightarrow> precedes r u v)"
  unfolding topological_sort_def Let_def
proof (rule topological_loop_ordered[OF assms indeg_count_finite])
  let ?q = "filter (\<lambda>x. indeg_count nb es x = 0) es"
  show "distinct ([] @ ?q)" using assms(1) by simp
  show "set ([] @ ?q) \<subseteq> set es" by auto
  show "set ?q = set [] \<union> set ?q" by simp
  show "\<forall>v. v \<notin> set ?q \<longrightarrow> indeg_count nb es v = pending nb es (set []) v"
    by (simp add: pending_empty)
  show "\<forall>v\<in>set ?q. pending nb es (set []) v = 0" by (simp add: pending_empty)
  show "\<forall>u\<in>set es. \<forall>v\<in>set (nb u). v \<in> set [] \<longrightarrow> precedes [] u v" by simp
qed

end
